theory Spec2Isabelle
  imports Main
begin

section \<open>Go values, fields and contexts\<close>

text \<open>
  \<open>slog.Value\<close> and \<open>slog.Attr\<close> (standard library, log/slog): a value has a kind. The
  kinds told apart here are String, Int64, Bool and Group (a list of attributes);
  \<open>KindAnyNil\<close> is the zero \<open>Value\<close>, which is also \<open>Value{any: nil}\<close>; \<open>KindOther\<close> stands
  for a value of any other kind or of kind Any holding a non-nil Go value (told apart by
  a tag). An attribute is a key and a value.
\<close>

datatype Value =
    KindString string
  | KindInt64 int
  | KindBool bool
  | KindGroup "Attr list"
  | KindAnyNil
  | KindOther nat
and Attr = Attr (attrKey: string) (attrValue: Value)

text \<open>
  A value of Go's interface type \<open>any\<close>: the untyped nil, a string, an \<open>int\<close>, a boolean,
  a \<open>[]slog.Attr\<close>, a \<open>slog.Value\<close>, or a value of some other dynamic type (told apart by a
  tag). The type assertion \<open>args[i].(string)\<close> succeeds on \<open>AnyString\<close> only.
\<close>

datatype any =
    AnyNil
  | AnyString string
  | AnyInt int
  | AnyBool bool
  | AnyAttrs "Attr list"
  | AnySlogValue Value
  | AnyOther nat

text \<open>\<open>field\<close>: one key-value pair (struct \<open>field {key string; val any}\<close>).\<close>

record field =
  key :: string
  val :: any

text \<open>
  Keys under which a \<open>context.Context\<close> stores values. \<open>contextKeyFields\<close> is the
  package's private key (the pointer \<open>&struct{}{}\<close>), \<open>keyFields\<close> the string-typed key
  \<open>"slog_fields"\<close> of slogctx/handler.go; \<open>otherKey\<close> stands for every key of other
  packages.
\<close>

datatype ctxkey = contextKeyFields | keyFields | otherKey nat

text \<open>
  What a context stores under a key: the untyped nil (\<open>context.WithValue(ctx, k, nil)\<close>),
  a non-nil \<open>*fieldsData\<close> (given by the slice it points to), a \<open>*sync.Map\<close> (given by
  its entries, for slogctx/handler.go), or any other value.
\<close>

datatype ctxval =
    NilValue
  | FieldsData "field list"
  | SyncMap "(any \<times> any) list"
  | OtherValue any

text \<open>
  A non-nil \<open>context.Context\<close>: the root \<open>context.Background()\<close>, or a context derived
  by \<open>context.WithValue(parent, key, val)\<close>. A Go variable of type \<open>context.Context\<close>
  may also be nil: it is a \<open>context option\<close>, nil being \<open>None\<close>.
\<close>

datatype "context" = Background | WithValue "context" ctxkey ctxval

type_synonym Context = "context option"

text \<open>\<open>ctx.Value(k)\<close>: the value of the nearest binding of \<open>k\<close>, nil when there is none.\<close>

fun ctxValue :: "context \<Rightarrow> ctxkey \<Rightarrow> ctxval" where
  "ctxValue Background k = NilValue"
| "ctxValue (WithValue parent k' v) k = (if k = k' then v else ctxValue parent k)"

text \<open>
  The type assertion \<open>v.(*fieldsData)\<close>: \<open>Some slice\<close> when \<open>v\<close> holds a (non-nil)
  \<open>*fieldsData\<close>, \<open>None\<close> otherwise (\<open>ok = false\<close>, \<open>p = nil\<close>).
\<close>

fun as_fieldsData :: "ctxval \<Rightarrow> field list option" where
  "as_fieldsData (FieldsData slice) = Some slice"
| "as_fieldsData _ = None"

text \<open>Runtime faults (Go panics) of the code modelled here.\<close>

datatype fault =
    NilContext     \<comment> \<open>a method called on a nil \<open>context.Context\<close>\<close>
  | NilParent      \<comment> \<open>\<open>context.WithValue\<close>: cannot create context from nil parent\<close>
  | NilHandler     \<comment> \<open>a method called on a nil wrapped \<open>slog.Handler\<close>\<close>

section \<open>Mutators of the carrier\<close>

text \<open>
  The loop of \<open>WithValues\<close> over the argument pairs:
  \<^verbatim>\<open>for i := 0; i+1 < n; i += 2 { key, ok := args[i].(string);
      if !ok || key == "" { continue }
      newFields = append(newFields, field{key: key, val: args[i+1]}) }\<close>
  Both reads are in range, since \<open>i + 1 < n \<le> len(args)\<close>.
\<close>

function collectFields :: "any list \<Rightarrow> nat \<Rightarrow> nat \<Rightarrow> field list \<Rightarrow> field list" where
  "collectFields args n i newFields =
     (if i + 1 < n then
        (case args ! i of
           AnyString k \<Rightarrow>
             if k = [] then collectFields args n (i + 2) newFields
             else collectFields args n (i + 2) (newFields @ [\<lparr>key = k, val = args ! (i + 1)\<rparr>])
         | _ \<Rightarrow> collectFields args n (i + 2) newFields)
      else newFields)"
  by pat_completeness auto
termination
  by (relation "measure (\<lambda>(args, n, i, newFields). n - i)") auto

declare collectFields.simps [simp del]

text \<open>The number of arguments that are paired: an odd last argument is ignored.\<close>

definition pairedLen :: "any list \<Rightarrow> nat" where
  "pairedLen args = (let n = length args in if n mod 2 \<noteq> 0 then n - 1 else n)"

text \<open>\<open>if ctx == nil { ctx = context.Background() }\<close>\<close>

definition orBackground :: "Context \<Rightarrow> context" where
  "orBackground ctx = (case ctx of None \<Rightarrow> Background | Some c \<Rightarrow> c)"

definition WithValues :: "Context \<Rightarrow> any list \<Rightarrow> Context" where
  "WithValues ctx0 args =
     (let ctx = orBackground ctx0;
          n = pairedLen args
      in if n = 0 then Some ctx
         else
           let newFields = collectFields args n 0 [] in
           if length newFields = 0 then Some ctx
           else
             (case as_fieldsData (ctxValue ctx contextKeyFields) of
                None \<Rightarrow> Some (WithValue ctx contextKeyFields (FieldsData newFields))
              | Some slice \<Rightarrow>
                  if length slice = 0
                  then Some (WithValue ctx contextKeyFields (FieldsData newFields))
                  else Some (WithValue ctx contextKeyFields (FieldsData (slice @ newFields)))))"


text \<open>
  The loop of \<open>WithUniqueValues\<close> over the argument pairs: as in \<open>WithValues\<close>, and
  each kept key is also put into \<open>replaceSet\<close> (a \<open>map[string]struct{}\<close>, a set of keys).
\<close>

function collectUnique ::
  "any list \<Rightarrow> nat \<Rightarrow> nat \<Rightarrow> field list \<Rightarrow> string set \<Rightarrow> field list \<times> string set" where
  "collectUnique args n i newFields replaceSet =
     (if i + 1 < n then
        (case args ! i of
           AnyString k \<Rightarrow>
             if k = [] then collectUnique args n (i + 2) newFields replaceSet
             else collectUnique args n (i + 2)
                    (newFields @ [\<lparr>key = k, val = args ! (i + 1)\<rparr>]) (insert k replaceSet)
         | _ \<Rightarrow> collectUnique args n (i + 2) newFields replaceSet)
      else (newFields, replaceSet))"
  by pat_completeness auto
termination
  by (relation "measure (\<lambda>(args, n, i, newFields, replaceSet). n - i)") auto

declare collectUnique.simps [simp del]

text \<open>
  The range loops of \<open>WithUniqueValues\<close> and \<open>WithoutKeys\<close> over the existing fields:
  \<^verbatim>\<open>for _, f := range existing { if _, skip := set[f.key]; !skip { result = append(result, f) } }\<close>
\<close>

fun rangeKeep :: "string set \<Rightarrow> field list \<Rightarrow> field list \<Rightarrow> field list" where
  "rangeKeep keySet [] result = result"
| "rangeKeep keySet (f # existing) result =
     (if key f \<in> keySet then rangeKeep keySet existing result
      else rangeKeep keySet existing (result @ [f]))"

definition WithUniqueValues :: "Context \<Rightarrow> any list \<Rightarrow> Context" where
  "WithUniqueValues ctx0 args =
     (let ctx = orBackground ctx0;
          n = pairedLen args
      in if n = 0 then Some ctx
         else
           let (newFields, replaceSet) = collectUnique args n 0 [] {} in
           if length newFields = 0 then Some ctx
           else
             let existing =
                   (case as_fieldsData (ctxValue ctx contextKeyFields) of
                      None \<Rightarrow> []
                    | Some slice \<Rightarrow> if length slice > 0 then slice else []);
                 result = rangeKeep replaceSet existing [];
                 combined = result @ newFields
             in Some (WithValue ctx contextKeyFields (FieldsData combined)))"

text \<open>
  \<open>WithoutAllKeys\<close> is \<open>context.WithValue(ctx, contextKeyFields, nil)\<close>, which panics
  on a nil parent.
\<close>

definition WithoutAllKeys :: "Context \<Rightarrow> fault + Context" where
  "WithoutAllKeys ctx =
     (case ctx of
        None \<Rightarrow> Inl NilParent
      | Some c \<Rightarrow> Inr (Some (WithValue c contextKeyFields NilValue)))"

text \<open>\<open>for _, k := range keys { keySet[k] = struct{}{} }\<close>\<close>

fun makeKeySet :: "string list \<Rightarrow> string set \<Rightarrow> string set" where
  "makeKeySet [] keySet = keySet"
| "makeKeySet (k # keys) keySet = makeKeySet keys (insert k keySet)"

definition WithoutKeys :: "Context \<Rightarrow> string list \<Rightarrow> Context" where
  "WithoutKeys ctx keys =
     (case ctx of
        None \<Rightarrow> None
      | Some c \<Rightarrow>
          if length keys = 0 then Some c
          else
            (case as_fieldsData (ctxValue c contextKeyFields) of
               None \<Rightarrow> Some c
             | Some slice \<Rightarrow>
                 if length slice = 0 then Some c
                 else
                   let keySet = makeKeySet keys {};
                       result = rangeKeep keySet slice []
                   in if length result = 0
                      then Some (WithValue c contextKeyFields NilValue)
                      else Some (WithValue c contextKeyFields (FieldsData result))))"

section \<open>Accessors\<close>

text \<open>The loop of \<open>GetFirstValue\<close>: the value of the first field with the key.\<close>

fun firstValue :: "field list \<Rightarrow> string \<Rightarrow> any \<times> bool" where
  "firstValue [] k = (AnyNil, False)"
| "firstValue (f # fs) k = (if key f = k then (val f, True) else firstValue fs k)"

definition GetFirstValue :: "Context \<Rightarrow> string \<Rightarrow> fault + any \<times> bool" where
  "GetFirstValue ctx k =
     (if k = [] then Inr (AnyNil, False)
      else
        (case ctx of
           None \<Rightarrow> Inl NilContext
         | Some c \<Rightarrow>
             (case as_fieldsData (ctxValue c contextKeyFields) of
                None \<Rightarrow> Inr (AnyNil, False)
              | Some slice \<Rightarrow> Inr (firstValue slice k))))"

text \<open>The loop of \<open>HasKey\<close>.\<close>

fun anyKey :: "field list \<Rightarrow> string \<Rightarrow> bool" where
  "anyKey [] k = False"
| "anyKey (f # fs) k = (if key f = k then True else anyKey fs k)"

definition HasKey :: "Context \<Rightarrow> string \<Rightarrow> fault + bool" where
  "HasKey ctx k =
     (if k = [] then Inr False
      else
        (case ctx of
           None \<Rightarrow> Inl NilContext
         | Some c \<Rightarrow>
             (case as_fieldsData (ctxValue c contextKeyFields) of
                None \<Rightarrow> Inr False
              | Some slice \<Rightarrow> Inr (anyKey slice k))))"

section \<open>The record and the wrapped sink\<close>

text \<open>
  \<open>slog.Any\<close>, \<open>slog.Record\<close> and its method \<open>AddAttrs\<close> belong to the standard library
  (log/slog of Go 1.22, the version go.mod names); they are given here as that library
  has them.

  \<open>isEmptyGroup\<close>: the value is a group with no attribute.
  \<open>GroupValue(as...)\<close> makes a group of the attributes whose value is not an empty group.
\<close>

fun isEmptyGroup :: "Value \<Rightarrow> bool" where
  "isEmptyGroup (KindGroup as) = (length as = 0)"
| "isEmptyGroup _ = False"

definition GroupValue :: "Attr list \<Rightarrow> Value" where
  "GroupValue as = KindGroup (filter (\<lambda>a. \<not> isEmptyGroup (attrValue a)) as)"

text \<open>
  \<open>slog.AnyValue(v)\<close> switches on the dynamic type of \<open>v\<close>: a string gives a String
  value, an \<open>int\<close> an Int64 value, a \<open>[]Attr\<close> the group \<open>GroupValue(v...)\<close>, a \<open>Value\<close>
  itself; nil gives \<open>Value{any: nil}\<close>. \<open>slog.Any(key, value)\<close> is
  \<open>Attr{key, AnyValue(value)}\<close>, and \<open>slog.String(key, value)\<close> is
  \<open>Attr{key, StringValue(value)}\<close>.
\<close>

fun AnyValue :: "any \<Rightarrow> Value" where
  "AnyValue (AnyString s) = KindString s"
| "AnyValue (AnyInt n) = KindInt64 n"
| "AnyValue (AnyBool b) = KindBool b"
| "AnyValue (AnyAttrs as) = GroupValue as"
| "AnyValue (AnySlogValue v) = v"
| "AnyValue AnyNil = KindAnyNil"
| "AnyValue (AnyOther n) = KindOther n"

definition slogAny :: "string \<Rightarrow> any \<Rightarrow> Attr" where
  "slogAny k v = Attr k (AnyValue v)"

definition slogString :: "string \<Rightarrow> string \<Rightarrow> Attr" where
  "slogString k v = Attr k (KindString v)"

text \<open>
  \<open>Attr.isEmpty\<close>: the key is empty and the value is the zero \<open>Value\<close>. \<open>zeroAttr\<close> is
  the zero \<open>Attr\<close>, which a newly allocated array cell holds.
\<close>

definition isEmptyAttr :: "Attr \<Rightarrow> bool" where
  "isEmptyAttr a = (attrKey a = [] \<and> attrValue a = KindAnyNil)"

definition zeroAttr :: Attr where
  "zeroAttr = Attr [] KindAnyNil"

text \<open>
  \<open>slog.Record\<close> keeps its first \<open>nAttrsInline\<close> attributes in an array of its own
  (\<open>front\<close>, of which \<open>nFront\<close> cells are in use) and the others in a slice (\<open>back\<close>).
  A copy of a record has its own \<open>front\<close> and its own slice header, and shares the array
  of \<open>back\<close>. \<open>rFront\<close> is the cells of \<open>front\<close> in use, \<open>rBack\<close> the elements of
  \<open>back\<close>, and \<open>rSpare\<close> the cells of the array of \<open>back\<close> from its length up to its
  capacity, as they are when the record is read. The time and the program counter of a
  record play no part here.
\<close>

record slogRecord =
  rLevel :: int
  rMessage :: string
  rFront :: "Attr list"
  rBack :: "Attr list"
  rSpare :: "Attr list"

definition nAttrsInline :: nat where
  "nAttrsInline = 5"

text \<open>\<open>slog.NewRecord\<close>: no attribute, and a nil \<open>back\<close>.\<close>

definition NewRecord :: "int \<Rightarrow> string \<Rightarrow> slogRecord" where
  "NewRecord level msg = \<lparr>rLevel = level, rMessage = msg, rFront = [], rBack = [], rSpare = []\<rparr>"

text \<open>The attributes \<open>Record.Attrs\<close> visits, in order: those of \<open>front\<close>, then those of \<open>back\<close>.\<close>

definition rAttrs :: "slogRecord \<Rightarrow> Attr list" where
  "rAttrs r = rFront r @ rBack r"

text \<open>
  A slice of attributes is given by its elements and the spare cells of its array.
  \<open>append(s, xs...)\<close> writes into the spare cells when they suffice; otherwise it moves to
  a new array, whose capacity beyond what is needed is the runtime's choice (\<open>slack\<close>) and
  whose spare cells are zero. \<open>slices.Grow(s, n)\<close> returns \<open>s\<close> when \<open>n\<close> cells are spare;
  otherwise \<open>append(s[:cap(s)], make([]E, n - (cap(s) - len(s)))...)[:len(s)]\<close>, a new array
  that holds the old cells, spare ones included, and zero cells after them.
\<close>

definition appendAttrs ::
  "(nat \<Rightarrow> nat) \<Rightarrow> Attr list \<times> Attr list \<Rightarrow> Attr list \<Rightarrow> Attr list \<times> Attr list" where
  "appendAttrs slack s xs =
     (case s of (elems, spare) \<Rightarrow>
        if length xs \<le> length spare then (elems @ xs, drop (length xs) spare)
        else (elems @ xs, replicate (slack (length elems + length xs)) zeroAttr))"

definition growAttrs ::
  "(nat \<Rightarrow> nat) \<Rightarrow> Attr list \<times> Attr list \<Rightarrow> nat \<Rightarrow> Attr list \<times> Attr list" where
  "growAttrs slack s n =
     (case s of (elems, spare) \<Rightarrow>
        if n \<le> length spare then (elems, spare)
        else (elems, spare @ replicate (n - length spare + slack (length elems + n)) zeroAttr))"

text \<open>
  \<open>AddAttrs\<close>, first loop:
  \<^verbatim>\<open>for i = 0; i < len(attrs) && r.nFront < len(r.front); i++\<close>. An empty group is
  skipped, any other attribute is put into \<open>front\<close>. The result is \<open>front\<close> and \<open>attrs[i:]\<close>.
\<close>

fun addFront :: "Attr list \<Rightarrow> Attr list \<Rightarrow> Attr list \<times> Attr list" where
  "addFront front [] = (front, [])"
| "addFront front (a # as) =
     (if length front < nAttrsInline then
        (if isEmptyGroup (attrValue a) then addFront front as else addFront (front @ [a]) as)
      else (front, a # as))"

text \<open>\<open>countEmptyGroups\<close>, and the last loop of \<open>AddAttrs\<close> over \<open>attrs[i:]\<close>.\<close>

definition countEmptyGroups :: "Attr list \<Rightarrow> nat" where
  "countEmptyGroups as = length (filter (\<lambda>a. isEmptyGroup (attrValue a)) as)"

fun addBack ::
  "(nat \<Rightarrow> nat) \<Rightarrow> Attr list \<times> Attr list \<Rightarrow> Attr list \<Rightarrow> Attr list \<times> Attr list" where
  "addBack slack s [] = s"
| "addBack slack s (a # as) =
     (if \<not> isEmptyGroup (attrValue a) then addBack slack (appendAttrs slack s [a]) as
      else addBack slack s as)"

text \<open>
  \<open>AddAttrs\<close>. Between the two loops it looks at the cell just past the end of \<open>back\<close>:
  a cell that is not empty was written through another copy of the record, and then
  \<open>back\<close> is clipped (\<open>slices.Clip\<close>: the capacity becomes the length) and an attribute
  \<open>!BUG\<close> is appended to it.
\<close>

definition AddAttrs :: "(nat \<Rightarrow> nat) \<Rightarrow> slogRecord \<Rightarrow> Attr list \<Rightarrow> slogRecord" where
  "AddAttrs slack r attrs =
     (let (front, rest) = addFront (rFront r) attrs;
          back1 =
            (if length (rSpare r) > 0 \<and> \<not> isEmptyAttr (hd (rSpare r))
             then appendAttrs slack (rBack r, [])
                    [slogString ''!BUG''
                       ''AddAttrs unsafely called on copy of Record made without using Record.Clone'']
             else (rBack r, rSpare r));
          ne = countEmptyGroups rest;
          back2 = growAttrs slack back1 (length rest - ne);
          (back, spare) = addBack slack back2 rest
      in r\<lparr>rFront := front, rBack := back, rSpare := spare\<rparr>)"

text \<open>
  A record as \<open>NewRecord\<close>, \<open>AddAttrs\<close> and \<open>Clone\<close> make it, to whose array no other
  copy has written: \<open>front\<close> has at most \<open>nAttrsInline\<close> attributes, \<open>back\<close> is in use
  only when \<open>front\<close> is full, and the spare cells of \<open>back\<close> are empty.
\<close>

definition wfRecord :: "slogRecord \<Rightarrow> bool" where
  "wfRecord r =
     (length (rFront r) \<le> nAttrsInline \<and>
      (rBack r = [] \<or> length (rFront r) = nAttrsInline) \<and>
      list_all isEmptyAttr (rSpare r))"

text \<open>
  The attributes \<open>slog.Any\<close> makes of a list of fields, those whose value is an empty
  group left out.
\<close>

definition keptAttrs :: "field list \<Rightarrow> Attr list" where
  "keptAttrs fs =
     filter (\<lambda>a. \<not> isEmptyGroup (attrValue a)) (map (\<lambda>f. slogAny (key f) (val f)) fs)"

text \<open>
  The wrapped sink is any implementation of the interface \<open>slog.Handler\<close>: an object
  with the four methods. \<open>Handle\<close> returns an error (\<open>None\<close> is the nil error) and acts
  on the world outside (\<open>'w\<close>: an output stream, a buffer of captured logs);
  \<open>WithAttrs\<close> and \<open>WithGroup\<close> return a sink again.
\<close>

codatatype ('e, 'w) sink = Sink
  (sinkEnabled: "Context \<Rightarrow> int \<Rightarrow> bool")
  (sinkHandle: "Context \<Rightarrow> slogRecord \<Rightarrow> 'w \<Rightarrow> 'e option \<times> 'w")
  (sinkWithAttrs: "Attr list \<Rightarrow> ('e, 'w) sink")
  (sinkWithGroup: "string \<Rightarrow> ('e, 'w) sink")

section \<open>The decorator\<close>

text \<open>
  \<open>Handler\<close> embeds the wrapped \<open>slog.Handler\<close>, which \<open>NewHandler\<close> does not check
  for nil (\<open>None\<close>). \<open>legacyHandler\<close> is the type of the same name in slogctx/handler.go.
\<close>

datatype ('e, 'w) Handler = Handler "('e, 'w) sink option"

datatype ('e, 'w) legacyHandler = LegacyHandler "('e, 'w) sink option"

text \<open>
  A value of the interface \<open>slog.Handler\<close> as the decorator's methods return it: a
  decorator, a decorator of slogctx/handler.go, or a sink that is not decorated.
\<close>

datatype ('e, 'w) slogHandler =
    Decorator "('e, 'w) Handler"
  | LegacyDecorator "('e, 'w) legacyHandler"
  | Plain "('e, 'w) sink"

definition NewHandler :: "('e, 'w) sink option \<Rightarrow> ('e, 'w) slogHandler" where
  "NewHandler handler = Decorator (Handler handler)"

fun Enabled :: "('e, 'w) Handler \<Rightarrow> Context \<Rightarrow> int \<Rightarrow> fault + bool" where
  "Enabled (Handler None) ctx level = Inl NilHandler"
| "Enabled (Handler (Some s)) ctx level = Inr (sinkEnabled s ctx level)"

text \<open>\<open>for _, f := range p.slice { record.AddAttrs(slog.Any(f.key, f.val)) }\<close>\<close>

fun addFields :: "(nat \<Rightarrow> nat) \<Rightarrow> slogRecord \<Rightarrow> field list \<Rightarrow> slogRecord" where
  "addFields slack record [] = record"
| "addFields slack record (f # fs) =
     addFields slack (AddAttrs slack record [slogAny (key f) (val f)]) fs"

text \<open>
  \<open>Handle\<close>: a nil context faults at \<open>ctx.Value\<close>, before anything else; a nil wrapped
  handler faults at the delegated call. The record is passed by value: \<open>AddAttrs\<close>
  works on the copy \<open>Handle\<close> has, without \<open>Clone\<close>, and that copy goes to the sink.
\<close>

fun Handle ::
  "(nat \<Rightarrow> nat) \<Rightarrow> ('e, 'w) Handler \<Rightarrow> Context \<Rightarrow> slogRecord \<Rightarrow> 'w
     \<Rightarrow> fault + ('e option \<times> 'w)" where
  "Handle slack h None record w = Inl NilContext"
| "Handle slack (Handler wrapped) (Some c) record w =
     (let record' =
            (case as_fieldsData (ctxValue c contextKeyFields) of
               Some slice \<Rightarrow> addFields slack record slice
             | None \<Rightarrow> record)
      in case wrapped of
           None \<Rightarrow> Inl NilHandler
         | Some s \<Rightarrow> Inr (sinkHandle s (Some c) record' w))"

fun WithAttrs :: "('e, 'w) Handler \<Rightarrow> Attr list \<Rightarrow> fault + ('e, 'w) slogHandler" where
  "WithAttrs (Handler None) attrs = Inl NilHandler"
| "WithAttrs (Handler (Some s)) attrs = Inr (Decorator (Handler (Some (sinkWithAttrs s attrs))))"

fun WithGroup :: "('e, 'w) Handler \<Rightarrow> string \<Rightarrow> fault + ('e, 'w) slogHandler" where
  "WithGroup (Handler None) name = Inl NilHandler"
| "WithGroup (Handler (Some s)) name = Inr (Decorator (Handler (Some (sinkWithGroup s name))))"

subsection \<open>The decorator of slogctx/handler.go\<close>

text \<open>
  There the context carries a \<open>*sync.Map\<close> under \<open>keyFields\<close>, and \<open>Handle\<close> ranges over
  its entries, adding those whose key is a string. Go leaves the order of \<open>Range\<close>
  unspecified; the entries are given here in the order \<open>Range\<close> visits them.
\<close>

fun rangeSyncMap ::
  "(nat \<Rightarrow> nat) \<Rightarrow> slogRecord \<Rightarrow> (any \<times> any) list \<Rightarrow> slogRecord" where
  "rangeSyncMap slack record [] = record"
| "rangeSyncMap slack record ((k, v) # entries) =
     (case k of
        AnyString keyString \<Rightarrow>
          rangeSyncMap slack (AddAttrs slack record [slogAny keyString v]) entries
      | _ \<Rightarrow> rangeSyncMap slack record entries)"

fun legacyHandle ::
  "(nat \<Rightarrow> nat) \<Rightarrow> ('e, 'w) legacyHandler \<Rightarrow> Context \<Rightarrow> slogRecord \<Rightarrow> 'w
     \<Rightarrow> fault + ('e option \<times> 'w)" where
  "legacyHandle slack h None record w = Inl NilContext"
| "legacyHandle slack (LegacyHandler wrapped) (Some c) record w =
     (let record' =
            (case ctxValue c keyFields of
               SyncMap entries \<Rightarrow> rangeSyncMap slack record entries
             | _ \<Rightarrow> record)
      in case wrapped of
           None \<Rightarrow> Inl NilHandler
         | Some s \<Rightarrow> Inr (sinkHandle s (Some c) record' w))"

fun legacyWithAttrs ::
  "('e, 'w) legacyHandler \<Rightarrow> Attr list \<Rightarrow> fault + ('e, 'w) slogHandler" where
  "legacyWithAttrs (LegacyHandler None) attrs = Inl NilHandler"
| "legacyWithAttrs (LegacyHandler (Some s)) attrs =
     Inr (LegacyDecorator (LegacyHandler (Some (sinkWithAttrs s attrs))))"

text \<open>\<open>func (h Handler) WithGroup(name string) slog.Handler { return h.Handler.WithGroup(name) }\<close>\<close>

fun legacyWithGroup ::
  "('e, 'w) legacyHandler \<Rightarrow> string \<Rightarrow> fault + ('e, 'w) slogHandler" where
  "legacyWithGroup (LegacyHandler None) name = Inl NilHandler"
| "legacyWithGroup (LegacyHandler (Some s)) name = Inr (Plain (sinkWithGroup s name))"

text \<open>A call of \<open>Handle\<close> through the interface: dispatch on the dynamic type.\<close>

fun handlerHandle ::
  "(nat \<Rightarrow> nat) \<Rightarrow> ('e, 'w) slogHandler \<Rightarrow> Context \<Rightarrow> slogRecord \<Rightarrow> 'w
     \<Rightarrow> fault + ('e option \<times> 'w)" where
  "handlerHandle slack (Decorator h) ctx record w = Handle slack h ctx record w"
| "handlerHandle slack (LegacyDecorator h) ctx record w = legacyHandle slack h ctx record w"
| "handlerHandle slack (Plain s) ctx record w = Inr (sinkHandle s ctx record w)"

section \<open>The observed handler of slogtest\<close>

text \<open>
  \<open>ObservedHandler\<close> captures every record in a buffer shared by all its clones: the
  world it acts on is the list of captured logs. Its state is its scoped attributes and
  its group names.
\<close>

record ObservedLog =
  Level :: int
  Message :: string
  Attrs :: "Attr list"
  Groups :: "string list"

primcorec ObservedHandler :: "Attr list \<Rightarrow> string list \<Rightarrow> ('e, ObservedLog list) sink" where
  "ObservedHandler attrs groups =
     Sink (\<lambda>ctx level. True)
          (\<lambda>ctx r logs.
             (None, logs @ [\<lparr>Level = rLevel r, Message = rMessage r,
                              Attrs = attrs @ rAttrs r, Groups = groups\<rparr>]))
          (\<lambda>more. ObservedHandler (attrs @ more) groups)
          (\<lambda>name. ObservedHandler attrs (groups @ [name]))"

definition NewObservedHandler :: "('e, ObservedLog list) sink" where
  "NewObservedHandler = ObservedHandler [] []"

section \<open>The carrier, and the pairs an argument list stands for\<close>

text \<open>
  The carrier of a context: the field sequence bound to it, empty when nothing is bound
  (no binding, or the nil that \<open>WithoutAllKeys\<close> binds).
\<close>

definition carrier :: "context \<Rightarrow> field list" where
  "carrier c = (case as_fieldsData (ctxValue c contextKeyFields) of None \<Rightarrow> [] | Some slice \<Rightarrow> slice)"

text \<open>
  The argument list read as alternating keys and values: the pairs in order, a trailing
  unpaired argument dropped.
\<close>

fun pairsOf :: "'a list \<Rightarrow> ('a \<times> 'a) list" where
  "pairsOf (k # v # rest) = (k, v) # pairsOf rest"
| "pairsOf [k] = []"
| "pairsOf [] = []"

text \<open>A pair is kept when its key position holds a non-empty string.\<close>

fun validKey :: "any \<Rightarrow> bool" where
  "validKey (AnyString k) = (k \<noteq> [])"
| "validKey _ = False"

fun keyOf :: "any \<Rightarrow> string" where
  "keyOf (AnyString k) = k"
| "keyOf _ = []"

definition keptFields :: "any list \<Rightarrow> field list" where
  "keptFields args =
     map (\<lambda>(k, v). \<lparr>key = keyOf k, val = v\<rparr>) (filter (\<lambda>(k, v). validKey k) (pairsOf args))"

text \<open>How often a key occurs in a field sequence.\<close>

definition occurrences :: "string \<Rightarrow> field list \<Rightarrow> nat" where
  "occurrences k fs = length (filter (\<lambda>f. key f = k) fs)"

text \<open>An argument list written out from its pairs.\<close>

definition argsOf :: "('a \<times> 'a) list \<Rightarrow> 'a list" where
  "argsOf ps = concat (map (\<lambda>(k, v). [k, v]) ps)"



section \<open>Derivation chains\<close>

text \<open>
  A call of one of the four mutators, and a chain of such calls applied to a context one
  after the other. Only \<open>WithoutAllKeys\<close> can fault (on a nil context), which ends the
  chain.
\<close>

datatype call =
    CallWithValues "any list"
  | CallWithUniqueValues "any list"
  | CallWithoutKeys "string list"
  | CallWithoutAllKeys

fun applyCall :: "call \<Rightarrow> Context \<Rightarrow> fault + Context" where
  "applyCall (CallWithValues args) ctx = Inr (WithValues ctx args)"
| "applyCall (CallWithUniqueValues args) ctx = Inr (WithUniqueValues ctx args)"
| "applyCall (CallWithoutKeys keys) ctx = Inr (WithoutKeys ctx keys)"
| "applyCall CallWithoutAllKeys ctx = WithoutAllKeys ctx"

fun applyCalls :: "call list \<Rightarrow> Context \<Rightarrow> fault + Context" where
  "applyCalls [] ctx = Inr ctx"
| "applyCalls (c # cs) ctx =
     (case applyCall c ctx of Inl e \<Rightarrow> Inl e | Inr ctx' \<Rightarrow> applyCalls cs ctx')"

text \<open>The calls that add fields: \<open>WithValues\<close> and \<open>WithUniqueValues\<close>.\<close>

fun isAdd :: "call \<Rightarrow> bool" where
  "isAdd (CallWithValues args) = True"
| "isAdd (CallWithUniqueValues args) = True"
| "isAdd _ = False"

text \<open>
  The no-op calls: \<open>WithValues\<close> with no valid pair in its arguments, and \<open>WithoutKeys\<close>
  with no key.
\<close>

fun isNoop :: "call \<Rightarrow> bool" where
  "isNoop (CallWithValues args) = (keptFields args = [])"
| "isNoop (CallWithoutKeys keys) = (keys = [])"
| "isNoop _ = False"

section \<open>The store: backing arrays and shared objects\<close>

text \<open>
  The model above takes a slice for the list of its elements. Whether a mutator can
  disturb a carrier that was published before depends on what it writes and where, so the
  mutators are modelled a second time, on an explicit store. A slice is a header
  (base address, length, capacity) into a backing array; all slices here start at index 0
  of their array. The store holds the backing arrays and the \<open>fieldsData\<close> structs, both
  by address. An array's length in the store is its capacity; cells never written hold the
  zero \<open>field\<close>.
\<close>

record slice =
  base :: nat
  len :: nat
  cap :: nat

record store =
  arrays :: "field list list"
  objects :: "slice list"

definition zeroField :: field where
  "zeroField = \<lparr>key = [], val = AnyNil\<rparr>"

text \<open>The nil slice (\<open>var existing []field\<close>): no element, no capacity.\<close>

definition nilSlice :: slice where
  "nilSlice = \<lparr>base = 0, len = 0, cap = 0\<rparr>"

text \<open>The elements of a slice, read from the store.\<close>

definition sliceElems :: "store \<Rightarrow> slice \<Rightarrow> field list" where
  "sliceElems st s = (if len s = 0 then [] else take (len s) (arrays st ! base s))"

text \<open>\<open>make([]field, 0, c)\<close>: a new array of \<open>c\<close> zero cells.\<close>

definition makeSlice :: "nat \<Rightarrow> store \<Rightarrow> store \<times> slice" where
  "makeSlice c st =
     (st\<lparr>arrays := arrays st @ [replicate c zeroField]\<rparr>,
      \<lparr>base = length (arrays st), len = 0, cap = c\<rparr>)"

text \<open>
  \<open>append(s, xs...)\<close>. With nothing to append it returns \<open>s\<close>. If the capacity suffices,
  the values are written into the backing array of \<open>s\<close>, after its elements, and the
  result shares that array. Otherwise a new array is allocated, holding the elements of
  \<open>s\<close> and then the values; its capacity is at least what is needed, how much more being
  the runtime's choice (\<open>slack\<close>).
\<close>

definition appendSlice :: "(nat \<Rightarrow> nat) \<Rightarrow> slice \<Rightarrow> field list \<Rightarrow> store \<Rightarrow> store \<times> slice" where
  "appendSlice slack s xs st =
     (let need = len s + length xs in
      if xs = [] then (st, s)
      else if need \<le> cap s then
        (let a = arrays st ! base s in
         (st\<lparr>arrays := (arrays st)[base s := take (len s) a @ xs @ drop need a]\<rparr>,
          s\<lparr>len := need\<rparr>))
      else
        (st\<lparr>arrays := arrays st @ [sliceElems st s @ xs @ replicate (slack need) zeroField]\<rparr>,
         \<lparr>base = length (arrays st), len = need, cap = need + slack need\<rparr>))"

text \<open>\<open>slices.Clone(s)\<close> is \<open>append(s[:0:0], s...)\<close>.\<close>

definition slicesClone :: "(nat \<Rightarrow> nat) \<Rightarrow> slice \<Rightarrow> store \<Rightarrow> store \<times> slice" where
  "slicesClone slack s st = appendSlice slack (s\<lparr>len := 0, cap := 0\<rparr>) (sliceElems st s) st"

text \<open>\<open>&fieldsData{slice: s}\<close>: a new struct, and its address.\<close>

definition newFieldsData :: "slice \<Rightarrow> store \<Rightarrow> store \<times> nat" where
  "newFieldsData s st = (st\<lparr>objects := objects st @ [s]\<rparr>, length (objects st))"

text \<open>
  Contexts over the store: under a key a context holds nil, the address of a
  \<open>fieldsData\<close> struct, or some other value.
\<close>

datatype sval = SNilValue | SFieldsData nat | SOtherValue any

datatype scontext = SBackground | SWithValue scontext ctxkey sval

type_synonym SContext = "scontext option"

fun sctxValue :: "scontext \<Rightarrow> ctxkey \<Rightarrow> sval" where
  "sctxValue SBackground k = SNilValue"
| "sctxValue (SWithValue parent k' v) k = (if k = k' then v else sctxValue parent k)"

fun as_pointer :: "sval \<Rightarrow> nat option" where
  "as_pointer (SFieldsData p) = Some p"
| "as_pointer _ = None"

definition orSBackground :: "SContext \<Rightarrow> scontext" where
  "orSBackground ctx = (case ctx of None \<Rightarrow> SBackground | Some c \<Rightarrow> c)"

subsection \<open>The mutators on the store\<close>

function collectFields_st ::
  "(nat \<Rightarrow> nat) \<Rightarrow> any list \<Rightarrow> nat \<Rightarrow> nat \<Rightarrow> slice \<Rightarrow> store \<Rightarrow> store \<times> slice" where
  "collectFields_st slack args n i newFields st =
     (if i + 1 < n then
        (case args ! i of
           AnyString k \<Rightarrow>
             if k = [] then collectFields_st slack args n (i + 2) newFields st
             else collectFields_st slack args n (i + 2)
                    (snd (appendSlice slack newFields [\<lparr>key = k, val = args ! (i + 1)\<rparr>] st))
                    (fst (appendSlice slack newFields [\<lparr>key = k, val = args ! (i + 1)\<rparr>] st))
         | _ \<Rightarrow> collectFields_st slack args n (i + 2) newFields st)
      else (st, newFields))"
  by pat_completeness auto
termination
  by (relation "measure (\<lambda>(slack, args, n, i, newFields, st). n - i)") auto

declare collectFields_st.simps [simp del]

function collectUnique_st ::
  "(nat \<Rightarrow> nat) \<Rightarrow> any list \<Rightarrow> nat \<Rightarrow> nat \<Rightarrow> slice \<Rightarrow> string set \<Rightarrow> store
     \<Rightarrow> store \<times> slice \<times> string set" where
  "collectUnique_st slack args n i newFields replaceSet st =
     (if i + 1 < n then
        (case args ! i of
           AnyString k \<Rightarrow>
             if k = [] then collectUnique_st slack args n (i + 2) newFields replaceSet st
             else collectUnique_st slack args n (i + 2)
                    (snd (appendSlice slack newFields [\<lparr>key = k, val = args ! (i + 1)\<rparr>] st))
                    (insert k replaceSet)
                    (fst (appendSlice slack newFields [\<lparr>key = k, val = args ! (i + 1)\<rparr>] st))
         | _ \<Rightarrow> collectUnique_st slack args n (i + 2) newFields replaceSet st)
      else (st, newFields, replaceSet))"
  by pat_completeness auto
termination
  by (relation "measure (\<lambda>(slack, args, n, i, newFields, replaceSet, st). n - i)") auto

declare collectUnique_st.simps [simp del]

text \<open>
  The range loop over the existing fields. Each field is read from the store as the
  store is at that iteration, after the appends of the iterations before.
\<close>

function rangeKeep_st ::
  "(nat \<Rightarrow> nat) \<Rightarrow> string set \<Rightarrow> slice \<Rightarrow> nat \<Rightarrow> slice \<Rightarrow> store \<Rightarrow> store \<times> slice" where
  "rangeKeep_st slack keySet existing i result st =
     (if i < len existing then
        (let f = arrays st ! base existing ! i in
         if key f \<in> keySet then rangeKeep_st slack keySet existing (i + 1) result st
         else rangeKeep_st slack keySet existing (i + 1)
                (snd (appendSlice slack result [f] st))
                (fst (appendSlice slack result [f] st)))
      else (st, result))"
  by pat_completeness auto
termination
  by (relation "measure (\<lambda>(slack, keySet, existing, i, result, st). len existing - i)") auto

declare rangeKeep_st.simps [simp del]

definition WithValues_st :: "(nat \<Rightarrow> nat) \<Rightarrow> SContext \<Rightarrow> any list \<Rightarrow> store \<Rightarrow> store \<times> SContext" where
  "WithValues_st slack ctx0 args st =
     (let ctx = orSBackground ctx0;
          n = pairedLen args
      in if n = 0 then (st, Some ctx)
         else
           let (st1, newFields0) = makeSlice (n div 2) st;
               (st2, newFields) = collectFields_st slack args n 0 newFields0 st1
           in if len newFields = 0 then (st2, Some ctx)
              else
                (case as_pointer (sctxValue ctx contextKeyFields) of
                   None \<Rightarrow>
                     let (st3, p) = newFieldsData newFields st2
                     in (st3, Some (SWithValue ctx contextKeyFields (SFieldsData p)))
                 | Some q \<Rightarrow>
                     if len (objects st2 ! q) = 0 then
                       let (st3, p) = newFieldsData newFields st2
                       in (st3, Some (SWithValue ctx contextKeyFields (SFieldsData p)))
                     else
                       let (st3, clone) = slicesClone slack (objects st2 ! q) st2;
                           (st4, combined) = appendSlice slack clone (sliceElems st3 newFields) st3;
                           (st5, p) = newFieldsData combined st4
                       in (st5, Some (SWithValue ctx contextKeyFields (SFieldsData p)))))"

definition WithUniqueValues_st ::
  "(nat \<Rightarrow> nat) \<Rightarrow> SContext \<Rightarrow> any list \<Rightarrow> store \<Rightarrow> store \<times> SContext" where
  "WithUniqueValues_st slack ctx0 args st =
     (let ctx = orSBackground ctx0;
          n = pairedLen args
      in if n = 0 then (st, Some ctx)
         else
           let (st1, newFields0) = makeSlice (n div 2) st;
               (st2, newFields, replaceSet) = collectUnique_st slack args n 0 newFields0 {} st1
           in if len newFields = 0 then (st2, Some ctx)
              else
                let existing =
                      (case as_pointer (sctxValue ctx contextKeyFields) of
                         None \<Rightarrow> nilSlice
                       | Some q \<Rightarrow> if len (objects st2 ! q) > 0 then objects st2 ! q else nilSlice);
                    (st3, result0) = makeSlice (len existing + len newFields) st2;
                    (st4, result) = rangeKeep_st slack replaceSet existing 0 result0 st3;
                    (st5, combined) = appendSlice slack result (sliceElems st4 newFields) st4;
                    (st6, p) = newFieldsData combined st5
                in (st6, Some (SWithValue ctx contextKeyFields (SFieldsData p))))"

definition WithoutAllKeys_st :: "SContext \<Rightarrow> store \<Rightarrow> fault + store \<times> SContext" where
  "WithoutAllKeys_st ctx st =
     (case ctx of
        None \<Rightarrow> Inl NilParent
      | Some c \<Rightarrow> Inr (st, Some (SWithValue c contextKeyFields SNilValue)))"

definition WithoutKeys_st ::
  "(nat \<Rightarrow> nat) \<Rightarrow> SContext \<Rightarrow> string list \<Rightarrow> store \<Rightarrow> store \<times> SContext" where
  "WithoutKeys_st slack ctx keys st =
     (case ctx of
        None \<Rightarrow> (st, None)
      | Some c \<Rightarrow>
          if length keys = 0 then (st, Some c)
          else
            (case as_pointer (sctxValue c contextKeyFields) of
               None \<Rightarrow> (st, Some c)
             | Some q \<Rightarrow>
                 if len (objects st ! q) = 0 then (st, Some c)
                 else
                   let keySet = makeKeySet keys {};
                       (st1, result0) = makeSlice (len (objects st ! q)) st;
                       (st2, result) = rangeKeep_st slack keySet (objects st ! q) 0 result0 st1
                   in if len result = 0
                      then (st2, Some (SWithValue c contextKeyFields SNilValue))
                      else
                        let (st3, p) = newFieldsData result st2
                        in (st3, Some (SWithValue c contextKeyFields (SFieldsData p)))))"

subsection \<open>The readers on the store\<close>

text \<open>
  The accessors and \<open>Handle\<close> read \<open>p.slice\<close> through the pointer the context holds and
  range over its elements; they write nothing to the store.
\<close>

definition GetFirstValue_st :: "store \<Rightarrow> SContext \<Rightarrow> string \<Rightarrow> fault + any \<times> bool" where
  "GetFirstValue_st st ctx k =
     (if k = [] then Inr (AnyNil, False)
      else
        (case ctx of
           None \<Rightarrow> Inl NilContext
         | Some c \<Rightarrow>
             (case as_pointer (sctxValue c contextKeyFields) of
                None \<Rightarrow> Inr (AnyNil, False)
              | Some p \<Rightarrow> Inr (firstValue (sliceElems st (objects st ! p)) k))))"

definition HasKey_st :: "store \<Rightarrow> SContext \<Rightarrow> string \<Rightarrow> fault + bool" where
  "HasKey_st st ctx k =
     (if k = [] then Inr False
      else
        (case ctx of
           None \<Rightarrow> Inl NilContext
         | Some c \<Rightarrow>
             (case as_pointer (sctxValue c contextKeyFields) of
                None \<Rightarrow> Inr False
              | Some p \<Rightarrow> Inr (anyKey (sliceElems st (objects st ! p)) k))))"

text \<open>
  What \<open>Handle\<close> delegates to the wrapped sink: the record with the fields read from the
  store appended. The sink is called with this record; a nil context faults.
\<close>

definition emitted_st ::
  "(nat \<Rightarrow> nat) \<Rightarrow> store \<Rightarrow> SContext \<Rightarrow> slogRecord \<Rightarrow> fault + slogRecord" where
  "emitted_st slack st ctx record =
     (case ctx of
        None \<Rightarrow> Inl NilContext
      | Some c \<Rightarrow>
          (case as_pointer (sctxValue c contextKeyFields) of
             None \<Rightarrow> Inr record
           | Some p \<Rightarrow> Inr (addFields slack record (sliceElems st (objects st ! p)))))"

subsection \<open>Calls and chains on the store\<close>

fun applyCall_st :: "(nat \<Rightarrow> nat) \<Rightarrow> call \<Rightarrow> SContext \<Rightarrow> store \<Rightarrow> fault + store \<times> SContext" where
  "applyCall_st slack (CallWithValues args) ctx st = Inr (WithValues_st slack ctx args st)"
| "applyCall_st slack (CallWithUniqueValues args) ctx st = Inr (WithUniqueValues_st slack ctx args st)"
| "applyCall_st slack (CallWithoutKeys keys) ctx st = Inr (WithoutKeys_st slack ctx keys st)"
| "applyCall_st slack CallWithoutAllKeys ctx st = WithoutAllKeys_st ctx st"

fun applyCalls_st ::
  "(nat \<Rightarrow> nat) \<Rightarrow> call list \<Rightarrow> SContext \<Rightarrow> store \<Rightarrow> fault + store \<times> SContext" where
  "applyCalls_st slack [] ctx st = Inr (st, ctx)"
| "applyCalls_st slack (c # cs) ctx st =
     (case applyCall_st slack c ctx st of
        Inl e \<Rightarrow> Inl e
      | Inr (st', ctx') \<Rightarrow> applyCalls_st slack cs ctx' st')"

subsection \<open>Well-formed stores, and the context a store context stands for\<close>

text \<open>
  A slice is well formed in a store when its length is within its capacity and, unless
  the capacity is 0, its array exists and is at least as long as the capacity.
\<close>

definition wfSlice :: "store \<Rightarrow> slice \<Rightarrow> bool" where
  "wfSlice st s =
     (len s \<le> cap s \<and>
      (cap s = 0 \<or> (base s < length (arrays st) \<and> cap s \<le> length (arrays st ! base s))))"

definition wfStore :: "store \<Rightarrow> bool" where
  "wfStore st = list_all (wfSlice st) (objects st)"

text \<open>A context is well formed in a store when every pointer it holds is allocated.\<close>

fun wfCtx :: "store \<Rightarrow> scontext \<Rightarrow> bool" where
  "wfCtx st SBackground = True"
| "wfCtx st (SWithValue parent k v) =
     ((case v of SFieldsData p \<Rightarrow> p < length (objects st) | _ \<Rightarrow> True) \<and> wfCtx st parent)"

definition wfContext :: "store \<Rightarrow> SContext \<Rightarrow> bool" where
  "wfContext st ctx = (case ctx of None \<Rightarrow> True | Some c \<Rightarrow> wfCtx st c)"

fun absVal :: "store \<Rightarrow> sval \<Rightarrow> ctxval" where
  "absVal st SNilValue = NilValue"
| "absVal st (SFieldsData p) = FieldsData (sliceElems st (objects st ! p))"
| "absVal st (SOtherValue v) = OtherValue v"

fun absCtx :: "store \<Rightarrow> scontext \<Rightarrow> context" where
  "absCtx st SBackground = Background"
| "absCtx st (SWithValue parent k v) = WithValue (absCtx st parent) k (absVal st v)"

text \<open>
  One store extends another when everything allocated in the first is in the second,
  unchanged: every array in all its cells, spare capacity included, and every struct.
\<close>

definition extends :: "store \<Rightarrow> store \<Rightarrow> bool" where
  "extends st st' =
     (take (length (arrays st)) (arrays st') = arrays st \<and>
      take (length (objects st)) (objects st') = objects st)"

subsection \<open>What one call may touch\<close>

text \<open>
  Within one call, \<open>N\<close> is the number of arrays that existed when the call began. The
  store \<open>st'\<close> agrees with \<open>st\<close> below \<open>N\<close> when those arrays and all structs are the same.
\<close>

definition sameBelow :: "nat \<Rightarrow> store \<Rightarrow> store \<Rightarrow> bool" where
  "sameBelow N st st' =
     (take N (arrays st') = take N (arrays st) \<and> objects st' = objects st \<and>
      length (arrays st) \<le> length (arrays st'))"

text \<open>A slice the call itself allocated: well formed, and its array is not one of the old ones.\<close>

definition freshSlice :: "nat \<Rightarrow> store \<Rightarrow> slice \<Rightarrow> bool" where
  "freshSlice N st s = (wfSlice st s \<and> (cap s = 0 \<or> N \<le> base s))"

text \<open>
  The slice ranged over lives in an array that existed before the call; appends to the
  result do not reach it.
\<close>

definition oldSlice :: "nat \<Rightarrow> store \<Rightarrow> slice \<Rightarrow> bool" where
  "oldSlice N st s =
     (len s = 0 \<or>
      (base s < N \<and> base s < length (arrays st) \<and> len s \<le> length (arrays st ! base s)))"

section \<open>Properties: the argument loop\<close>

lemma drop_two: "i + 1 < length xs \<Longrightarrow> drop i xs = xs ! i # xs ! (i + 1) # drop (i + 2) xs"
  by (metis Cons_nth_drop_Suc Suc_eq_plus1 add_2_eq_Suc' add_lessD1)

lemma pairsOf_drop_short: "\<not> i + 1 < length xs \<Longrightarrow> pairsOf (drop i xs) = []"
proof -
  assume "\<not> i + 1 < length xs"
  then have "length (drop i xs) \<le> 1" by simp
  then show ?thesis by (cases "drop i xs" rule: pairsOf.cases) auto
qed

lemma keptFields_Cons2:
  "keptFields (k # v # rest) =
     (if validKey k then \<lparr>key = keyOf k, val = v\<rparr> # keptFields rest else keptFields rest)"
  by (simp add: keptFields_def)

lemma keptFields_no_pairs: "pairsOf xs = [] \<Longrightarrow> keptFields xs = []"
  by (simp add: keptFields_def)

lemma drop_take_two:
  assumes "i + 1 < n" and "n \<le> length args"
  shows "drop i (take n args) = args ! i # args ! (i + 1) # drop (i + 2) (take n args)"
proof -
  have "i + 1 < length (take n args)" using assms by simp
  then have "drop i (take n args) =
      take n args ! i # take n args ! (i + 1) # drop (i + 2) (take n args)"
    by (rule drop_two)
  moreover have "take n args ! i = args ! i" "take n args ! (i + 1) = args ! (i + 1)"
    using assms by simp_all
  ultimately show ?thesis by simp
qed

lemma collectFields_take:
  "n \<le> length args \<Longrightarrow> collectFields args n i acc = acc @ keptFields (drop i (take n args))"
proof (induction args n i acc rule: collectFields.induct)
  case (1 args n i newFields)
  show ?case
  proof (cases "i + 1 < n")
    case False
    then have "pairsOf (drop i (take n args)) = []"
      using pairsOf_drop_short[of i "take n args"] "1.prems" by simp
    with False show ?thesis
      by (simp add: collectFields.simps[of args n i] keptFields_no_pairs)
  next
    case True
    note d = drop_take_two[OF True "1.prems"]
    show ?thesis
      using True "1.IH" "1.prems"
      by (cases "args ! i")
         (simp_all add: collectFields.simps[of args n i] d keptFields_Cons2)
  qed
qed

lemma pairedLen_Cons2: "pairedLen (k # v # rest) = Suc (Suc (pairedLen rest))"
  by (auto simp: pairedLen_def Let_def mod_Suc split: if_splits)

lemma pairsOf_take: "pairsOf (take (pairedLen xs) xs) = pairsOf xs"
  by (induction xs rule: pairsOf.induct) (simp_all add: pairedLen_Cons2, simp_all add: pairedLen_def)

lemma pairedLen_le: "pairedLen args \<le> length args"
  by (simp add: pairedLen_def Let_def)

lemma collectFields_kept: "collectFields args (pairedLen args) 0 [] = keptFields args"
  using collectFields_take[OF pairedLen_le, of args 0 "[]"]
  by (simp add: keptFields_def pairsOf_take)

lemma pairedLen_0_kept: "pairedLen args = 0 \<Longrightarrow> keptFields args = []"
  using collectFields_kept[of args] by (simp add: collectFields.simps[of args 0 0])

lemma pairsOf_argsOf: "pairsOf (argsOf ps) = ps"
  by (induction ps) (auto simp: argsOf_def)

lemma pairsOf_argsOf_odd: "pairsOf (argsOf ps @ [a]) = ps"
  by (induction ps) (auto simp: argsOf_def)

section \<open>Properties: the carrier after each mutator\<close>

lemma carrier_WithValue_fields [simp]:
  "carrier (WithValue c contextKeyFields (FieldsData fs)) = fs"
  by (simp add: carrier_def)

lemma carrier_WithValue_nil [simp]:
  "carrier (WithValue c contextKeyFields NilValue) = []"
  by (simp add: carrier_def)

lemma carrier_Background [simp]: "carrier Background = []"
  by (simp add: carrier_def)

lemma WithValues_carrier:
  "map_option carrier (WithValues ctx args) = Some (carrier (orBackground ctx) @ keptFields args)"
  by (auto simp: WithValues_def Let_def collectFields_kept pairedLen_0_kept carrier_def
           split: option.splits)

lemma occurrences_append: "occurrences k (xs @ ys) = occurrences k xs + occurrences k ys"
  by (simp add: occurrences_def)

text \<open>
  C1. For every context (nil standing for the empty root context) and every argument
  list, \<open>WithValues\<close> returns a context whose carrier is the old carrier followed by the
  kept fields in their order: the fields of exactly those pairs whose key position holds a
  non-empty string. The pairs are those of the argument list read two by two, whether or
  not a trailing unpaired argument follows. No field is merged or dropped on account of
  its key: every key occurs as often as in the old carrier and in the kept fields
  together.
\<close>

theorem WithValues_appends_kept_pairs:
  "map_option carrier (WithValues ctx args)
     = Some (carrier (orBackground ctx) @ keptFields args)
   \<and> keptFields args
     = map (\<lambda>(k, v). \<lparr>key = keyOf k, val = v\<rparr>) (filter (\<lambda>(k, v). validKey k) (pairsOf args))
   \<and> pairsOf (argsOf ps) = ps
   \<and> pairsOf (argsOf ps @ [a]) = ps
   \<and> map_option (\<lambda>c. occurrences k (carrier c)) (WithValues ctx args)
     = Some (occurrences k (carrier (orBackground ctx)) + occurrences k (keptFields args))"
proof -
  have "map_option (\<lambda>c. occurrences k (carrier c)) (WithValues ctx args)
        = map_option (occurrences k) (map_option carrier (WithValues ctx args))"
    by (simp add: option.map_comp comp_def)
  then show ?thesis
    by (simp add: WithValues_carrier pairsOf_argsOf pairsOf_argsOf_odd occurrences_append
        keptFields_def)
qed

lemma rangeKeep_filter: "rangeKeep S fs acc = acc @ filter (\<lambda>f. key f \<notin> S) fs"
  by (induction fs arbitrary: acc) auto

lemma makeKeySet_set: "makeKeySet ks S = S \<union> set ks"
  by (induction ks arbitrary: S) auto

lemma collectUnique_take:
  "n \<le> length args \<Longrightarrow>
   collectUnique args n i acc S =
     (acc @ keptFields (drop i (take n args)),
      S \<union> key ` set (keptFields (drop i (take n args))))"
proof (induction args n i acc S rule: collectUnique.induct)
  case (1 args n i newFields replaceSet)
  show ?case
  proof (cases "i + 1 < n")
    case False
    then have "pairsOf (drop i (take n args)) = []"
      using pairsOf_drop_short[of i "take n args"] "1.prems" by simp
    with False show ?thesis
      by (simp add: collectUnique.simps[of args n i] keptFields_no_pairs)
  next
    case True
    note d = drop_take_two[OF True "1.prems"]
    show ?thesis
      using True "1.IH" "1.prems"
      by (cases "args ! i")
         (simp_all add: collectUnique.simps[of args n i] d keptFields_Cons2)
  qed
qed

lemma keptFields_take: "keptFields (take (pairedLen args) args) = keptFields args"
  by (simp add: keptFields_def pairsOf_take)

lemma collectUnique_kept:
  "collectUnique args (pairedLen args) 0 [] {} = (keptFields args, key ` set (keptFields args))"
  using collectUnique_take[OF pairedLen_le, of args 0 "[]" "{}"]
  by (simp add: keptFields_take)

lemma WithUniqueValues_carrier:
  "map_option carrier (WithUniqueValues ctx args)
     = Some (filter (\<lambda>f. key f \<notin> key ` set (keptFields args)) (carrier (orBackground ctx))
             @ keptFields args)"
  by (auto simp: WithUniqueValues_def Let_def collectUnique_kept pairedLen_0_kept carrier_def
        rangeKeep_filter split: option.splits)

lemma WithoutKeys_carrier:
  "map_option carrier (WithoutKeys (Some c) keys)
     = Some (filter (\<lambda>f. key f \<notin> set keys) (carrier c))"
  by (auto simp: WithoutKeys_def Let_def carrier_def rangeKeep_filter makeKeySet_set
        split: option.splits)

lemma firstValue_find:
  "firstValue fs k =
     (case find (\<lambda>f. key f = k) fs of None \<Rightarrow> (AnyNil, False) | Some f \<Rightarrow> (val f, True))"
  by (induction fs) auto

lemma anyKey_iff: "anyKey fs k = (k \<in> key ` set fs)"
  by (induction fs) auto

lemma GetFirstValue_carrier:
  "GetFirstValue (Some c) k = Inr (if k = [] then (AnyNil, False) else firstValue (carrier c) k)"
  by (auto simp: GetFirstValue_def carrier_def split: option.splits)

lemma HasKey_carrier:
  "HasKey (Some c) k = Inr (k \<noteq> [] \<and> anyKey (carrier c) k)"
  by (auto simp: HasKey_def carrier_def split: option.splits)

subsection \<open>What \<open>AddAttrs\<close> does with one attribute\<close>

lemma isEmptyAttr_zero: "isEmptyAttr zeroAttr"
  by (simp add: isEmptyAttr_def zeroAttr_def)

lemma AddAttrs_one:
  assumes "wfRecord r"
  shows "AddAttrs slack r [a] =
     (if isEmptyGroup (attrValue a) then r
      else if length (rFront r) < nAttrsInline then r\<lparr>rFront := rFront r @ [a]\<rparr>
      else r\<lparr>rBack := rBack r @ [a],
             rSpare := (if rSpare r = [] then replicate (slack (length (rBack r) + 1)) zeroAttr
                        else tl (rSpare r))\<rparr>)"
proof -
  have clean: "\<not> (length (rSpare r) > 0 \<and> \<not> isEmptyAttr (hd (rSpare r)))"
    using assms by (cases "rSpare r") (simp_all add: wfRecord_def)
  show ?thesis
    using clean
    by (cases "rSpare r")
       (auto simp: AddAttrs_def Let_def countEmptyGroups_def growAttrs_def appendAttrs_def)
qed

lemma AddAttrs_one_props:
  assumes "wfRecord r"
  shows "rAttrs (AddAttrs slack r [a]) = rAttrs r @ (if isEmptyGroup (attrValue a) then [] else [a])"
    and "rLevel (AddAttrs slack r [a]) = rLevel r"
    and "rMessage (AddAttrs slack r [a]) = rMessage r"
    and "wfRecord (AddAttrs slack r [a])"
  using assms
  by (auto simp: AddAttrs_one rAttrs_def wfRecord_def isEmptyAttr_zero list_all_iff
           dest: list.set_sel(2))

lemma addFront_props:
  "length front \<le> nAttrsInline \<Longrightarrow>
   fst (addFront front as) @ filter (\<lambda>a. \<not> isEmptyGroup (attrValue a)) (snd (addFront front as))
     = front @ filter (\<lambda>a. \<not> isEmptyGroup (attrValue a)) as
   \<and> length (fst (addFront front as)) \<le> nAttrsInline
   \<and> (snd (addFront front as) = [] \<or> length (fst (addFront front as)) = nAttrsInline)
   \<and> (length front = nAttrsInline \<longrightarrow> addFront front as = (front, as))"
proof (induction as arbitrary: front)
  case Nil
  then show ?case by simp
next
  case (Cons a as)
  show ?case
  proof (cases "length front < nAttrsInline")
    case False
    then show ?thesis using Cons.prems by simp
  next
    case True
    show ?thesis
    proof (cases "isEmptyGroup (attrValue a)")
      case e: True
      show ?thesis using Cons.IH[OF Cons.prems] True e by simp
    next
      case e: False
      have "length (front @ [a]) \<le> nAttrsInline" using True by simp
      from Cons.IH[OF this] show ?thesis using True e by simp
    qed
  qed
qed

lemma addBack_fits:
  "length (filter (\<lambda>a. \<not> isEmptyGroup (attrValue a)) as) \<le> length spare \<Longrightarrow>
   addBack slack (elems, spare) as
     = (elems @ filter (\<lambda>a. \<not> isEmptyGroup (attrValue a)) as,
        drop (length (filter (\<lambda>a. \<not> isEmptyGroup (attrValue a)) as)) spare)"
proof (induction as arbitrary: elems spare)
  case Nil
  show ?case by simp
next
  case (Cons a as)
  show ?case
  proof (cases "isEmptyGroup (attrValue a)")
    case True
    then show ?thesis using Cons by simp
  next
    case False
    then obtain c spare' where sp: "spare = c # spare'" using Cons.prems by (cases spare) auto
    have "length (filter (\<lambda>a. \<not> isEmptyGroup (attrValue a)) as) \<le> length spare'"
      using Cons.prems False sp by simp
    from Cons.IH[OF this] show ?thesis using False sp by (simp add: appendAttrs_def)
  qed
qed

lemma count_kept:
  "length as - countEmptyGroups as = length (filter (\<lambda>a. \<not> isEmptyGroup (attrValue a)) as)"
  using sum_length_filter_compl[of "\<lambda>a. isEmptyGroup (attrValue a)" as]
  by (simp add: countEmptyGroups_def)

text \<open>
  \<open>AddAttrs\<close> on a record no other copy has written to: the attributes that are not
  empty groups are added after those the record has, and the record stays such a record.
\<close>

lemma AddAttrs_props:
  assumes w: "wfRecord r"
  shows "rAttrs (AddAttrs slack r attrs)
           = rAttrs r @ filter (\<lambda>a. \<not> isEmptyGroup (attrValue a)) attrs"
    and "rLevel (AddAttrs slack r attrs) = rLevel r"
    and "rMessage (AddAttrs slack r attrs) = rMessage r"
    and "wfRecord (AddAttrs slack r attrs)"
proof -
  let ?ne = "\<lambda>a. \<not> isEmptyGroup (attrValue a)"
  obtain front rest where af: "addFront (rFront r) attrs = (front, rest)"
    by (cases "addFront (rFront r) attrs")
  have lf: "length (rFront r) \<le> nAttrsInline" using w by (simp add: wfRecord_def)
  note p = addFront_props[OF lf, of attrs, unfolded af fst_conv snd_conv]
  have clean: "\<not> (length (rSpare r) > 0 \<and> \<not> isEmptyAttr (hd (rSpare r)))"
    using w by (cases "rSpare r") (simp_all add: wfRecord_def)
  let ?n = "length (filter ?ne rest)"
  define spare2 where "spare2 =
      (if ?n \<le> length (rSpare r) then rSpare r
       else rSpare r @ replicate (?n - length (rSpare r) + slack (length (rBack r) + ?n)) zeroAttr)"
  have g: "growAttrs slack (rBack r, rSpare r) ?n = (rBack r, spare2)"
    by (simp add: growAttrs_def spare2_def)
  have s2: "?n \<le> length spare2" by (simp add: spare2_def)
  have c2: "list_all isEmptyAttr spare2"
    using w by (simp add: spare2_def wfRecord_def isEmptyAttr_zero list_all_iff)
  have r': "AddAttrs slack r attrs
      = r\<lparr>rFront := front, rBack := rBack r @ filter ?ne rest, rSpare := drop ?n spare2\<rparr>"
    using clean by (auto simp: AddAttrs_def Let_def af count_kept g addBack_fits[OF s2])
  have bk: "rBack r \<noteq> [] \<Longrightarrow> front = rFront r \<and> rest = attrs"
    using w p by (auto simp: wfRecord_def)
  show "rAttrs (AddAttrs slack r attrs) = rAttrs r @ filter ?ne attrs"
  proof (cases "rBack r = []")
    case True
    then show ?thesis using p by (simp add: r' rAttrs_def)
  next
    case False
    then show ?thesis using bk by (simp add: r' rAttrs_def)
  qed
  show "rLevel (AddAttrs slack r attrs) = rLevel r" by (simp add: r')
  show "rMessage (AddAttrs slack r attrs) = rMessage r" by (simp add: r')
  have "list_all isEmptyAttr (drop ?n spare2)"
    using c2 by (auto simp: list_all_iff dest: in_set_dropD)
  moreover have "rBack r @ filter ?ne rest = [] \<or> length front = nAttrsInline"
    using p bk w by (cases "rBack r = []") (auto simp: wfRecord_def)
  ultimately show "wfRecord (AddAttrs slack r attrs)"
    using p by (simp add: r' wfRecord_def)
qed

lemma addFields_props:
  "wfRecord r \<Longrightarrow>
   rAttrs (addFields slack r fs) = rAttrs r @ keptAttrs fs
   \<and> rLevel (addFields slack r fs) = rLevel r
   \<and> rMessage (addFields slack r fs) = rMessage r
   \<and> wfRecord (addFields slack r fs)"
proof (induction fs arbitrary: r)
  case Nil
  then show ?case by (simp add: keptAttrs_def)
next
  case (Cons f fs)
  note p = AddAttrs_one_props[OF Cons.prems, where slack = slack and a = "slogAny (key f) (val f)"]
  from Cons.IH[OF p(4)] p(1) p(2) p(3) show ?case by (simp add: keptAttrs_def)
qed

text \<open>While \<open>front\<close> has room the attributes go there, and \<open>back\<close> is not touched.\<close>

lemma addFields_front:
  "wfRecord r \<Longrightarrow> length (rFront r) + length (keptAttrs fs) \<le> nAttrsInline \<Longrightarrow>
   addFields slack r fs = r\<lparr>rFront := rFront r @ keptAttrs fs\<rparr>"
proof (induction fs arbitrary: r)
  case Nil
  then show ?case by (simp add: keptAttrs_def)
next
  case (Cons f fs)
  let ?a = "slogAny (key f) (val f)"
  note w = AddAttrs_one_props(4)[OF Cons.prems(1), where slack = slack and a = ?a]
  show ?case
  proof (cases "isEmptyGroup (attrValue ?a)")
    case True
    then have k: "keptAttrs (f # fs) = keptAttrs fs" by (simp add: keptAttrs_def)
    have a: "AddAttrs slack r [?a] = r" using True by (simp add: AddAttrs_one[OF Cons.prems(1)])
    show ?thesis using Cons.IH[of r] Cons.prems by (simp add: a k)
  next
    case False
    then have k: "keptAttrs (f # fs) = ?a # keptAttrs fs" by (simp add: keptAttrs_def)
    have lt: "length (rFront r) < nAttrsInline" using Cons.prems(2) by (simp add: k)
    have a: "AddAttrs slack r [?a] = r\<lparr>rFront := rFront r @ [?a]\<rparr>"
      using False lt by (simp add: AddAttrs_one[OF Cons.prems(1)])
    have "addFields slack (AddAttrs slack r [?a]) fs
        = (AddAttrs slack r [?a])\<lparr>rFront := rFront (AddAttrs slack r [?a]) @ keptAttrs fs\<rparr>"
      using Cons.prems(2) by (intro Cons.IH[OF w]) (simp add: a k)
    then show ?thesis by (simp add: a k)
  qed
qed

lemma wfRecord_NewRecord: "wfRecord (NewRecord level msg)"
  by (simp add: wfRecord_def NewRecord_def)

lemma Handle_carrier:
  "Handle slack (Handler (Some s)) (Some c) r w =
     Inr (sinkHandle s (Some c) (addFields slack r (carrier c)) w)"
  by (auto simp: carrier_def split: option.splits)

text \<open>The mutators in closed form.\<close>

lemma WithValues_eq:
  "WithValues ctx args =
     (if keptFields args = [] then Some (orBackground ctx)
      else Some (WithValue (orBackground ctx) contextKeyFields
                   (FieldsData (carrier (orBackground ctx) @ keptFields args))))"
  by (auto simp: WithValues_def Let_def collectFields_kept pairedLen_0_kept carrier_def
        split: option.splits)

lemma WithUniqueValues_eq:
  "WithUniqueValues ctx args =
     (if keptFields args = [] then Some (orBackground ctx)
      else Some (WithValue (orBackground ctx) contextKeyFields
                   (FieldsData (filter (\<lambda>f. key f \<notin> key ` set (keptFields args))
                                   (carrier (orBackground ctx)) @ keptFields args))))"
  by (auto simp: WithUniqueValues_def Let_def collectUnique_kept pairedLen_0_kept carrier_def
        rangeKeep_filter split: option.splits)

lemma WithoutKeys_eq:
  "WithoutKeys (Some c) keys =
     (if keys = [] \<or> carrier c = [] then Some c
      else if filter (\<lambda>f. key f \<notin> set keys) (carrier c) = []
           then Some (WithValue c contextKeyFields NilValue)
           else Some (WithValue c contextKeyFields
                        (FieldsData (filter (\<lambda>f. key f \<notin> set keys) (carrier c)))))"
  by (auto simp: WithoutKeys_def Let_def carrier_def rangeKeep_filter makeKeySet_set
        split: option.splits)

lemma NewObservedHandler_Handle:
  "sinkHandle NewObservedHandler ctx r logs
     = (None, logs @ [\<lparr>Level = rLevel r, Message = rMessage r, Attrs = rAttrs r, Groups = []\<rparr>])"
  by (simp add: NewObservedHandler_def)

section \<open>Properties: the accessors\<close>

lemma find_first_match:
  "key f = k \<Longrightarrow> k \<notin> key ` set pre \<Longrightarrow> find (\<lambda>g. key g = k) (pre @ f # post) = Some f"
  by (induction pre) auto

lemma find_append_first:
  "find P (xs @ ys) = (case find P xs of None \<Rightarrow> find P ys | Some x \<Rightarrow> Some x)"
  by (induction xs) auto

lemma find_no_match: "k \<notin> key ` set fs \<Longrightarrow> find (\<lambda>g. key g = k) fs = None"
  by (induction fs) auto

lemma keptFields_a1 [simp]:
  "keptFields [AnyString ''a'', AnyInt 1] = [\<lparr>key = ''a'', val = AnyInt 1\<rparr>]"
  by (simp add: keptFields_def)

lemma keptFields_a2 [simp]:
  "keptFields [AnyString ''a'', AnyInt 2] = [\<lparr>key = ''a'', val = AnyInt 2\<rparr>]"
  by (simp add: keptFields_def)

lemma WithValues_Some: "\<exists>c'. WithValues ctx args = Some c'"
  using WithValues_carrier[of ctx args] by (cases "WithValues ctx args") auto

lemma WithValues_twice_carrier:
  "\<exists>c''. WithValues (WithValues ctx args1) args2 = Some c''
     \<and> carrier c'' = carrier (orBackground ctx) @ keptFields args1 @ keptFields args2"
proof -
  obtain c' where c': "WithValues ctx args1 = Some c'" using WithValues_Some by blast
  then have 1: "carrier c' = carrier (orBackground ctx) @ keptFields args1"
    using WithValues_carrier[of ctx args1] by simp
  obtain c'' where c'': "WithValues (Some c') args2 = Some c''" using WithValues_Some by blast
  then have "carrier c'' = carrier c' @ keptFields args2"
    using WithValues_carrier[of "Some c'" args2] by (simp add: orBackground_def)
  with 1 c' c'' show ?thesis by simp
qed

text \<open>
  C3. For every context and key, \<open>GetFirstValue\<close> returns the value of the earliest
  field of the carrier whose key is the given one, with \<open>true\<close>, and \<open>(nil, false)\<close>
  when the key is empty, when nothing is bound (the carrier is then empty) or when no
  field has the key. The first match wins over every later duplicate: if the carrier is
  \<open>pre @ f # post\<close>, \<open>f\<close> has the key and no field of \<open>pre\<close> has it, the result is the
  value of \<open>f\<close>, whatever \<open>post\<close> holds. After adding \<open>a = 1\<close> and then \<open>a = 2\<close>, the
  lookup of \<open>a\<close> gives 1 (or the value the context already had for \<open>a\<close>). The context
  is a context proper; on the nil context only the empty key is looked up without a fault.
\<close>

theorem GetFirstValue_first_match:
  "GetFirstValue (Some c) k =
     Inr (if k = [] then (AnyNil, False)
          else (case find (\<lambda>f. key f = k) (carrier c) of
                  None \<Rightarrow> (AnyNil, False)
                | Some f \<Rightarrow> (val f, True)))
   \<and> GetFirstValue ctx [] = Inr (AnyNil, False)
   \<and> (k \<noteq> [] \<and> carrier c = pre @ f # post \<and> key f = k \<and> k \<notin> key ` set pre
        \<longrightarrow> GetFirstValue (Some c) k = Inr (val f, True))
   \<and> GetFirstValue (WithValues (WithValues ctx0 [AnyString ''a'', AnyInt 1])
                                [AnyString ''a'', AnyInt 2]) ''a''
       = Inr (case find (\<lambda>f. key f = ''a'') (carrier (orBackground ctx0)) of
                None \<Rightarrow> (AnyInt 1, True)
              | Some f \<Rightarrow> (val f, True))
   \<and> GetFirstValue (WithValues (WithValues (Some Background) [AnyString ''a'', AnyInt 1])
                                [AnyString ''a'', AnyInt 2]) ''a''
       = Inr (AnyInt 1, True)
   \<and> GetFirstValue (WithValues (WithValues None [AnyString ''a'', AnyInt 1])
                                [AnyString ''a'', AnyInt 2]) ''a''
       = Inr (AnyInt 1, True)"
proof -
  have A: "GetFirstValue (Some c) k =
     Inr (if k = [] then (AnyNil, False)
          else (case find (\<lambda>f. key f = k) (carrier c) of
                  None \<Rightarrow> (AnyNil, False)
                | Some f \<Rightarrow> (val f, True)))" for c k
    by (simp add: GetFirstValue_carrier firstValue_find)
  have B: "GetFirstValue ctx [] = Inr (AnyNil, False)"
    by (simp add: GetFirstValue_def)
  have C: "k \<noteq> [] \<and> carrier c = pre @ f # post \<and> key f = k \<and> k \<notin> key ` set pre
        \<longrightarrow> GetFirstValue (Some c) k = Inr (val f, True)"
    by (auto simp: A find_first_match)
  have D: "GetFirstValue (WithValues (WithValues ctx [AnyString ''a'', AnyInt 1])
                                [AnyString ''a'', AnyInt 2]) ''a''
       = Inr (case find (\<lambda>f. key f = ''a'') (carrier (orBackground ctx)) of
                None \<Rightarrow> (AnyInt 1, True)
              | Some f \<Rightarrow> (val f, True))" for ctx
  proof -
    obtain c'' where c'': "WithValues (WithValues ctx [AnyString ''a'', AnyInt 1])
          [AnyString ''a'', AnyInt 2] = Some c''"
      and car: "carrier c'' = carrier (orBackground ctx)
          @ [\<lparr>key = ''a'', val = AnyInt 1\<rparr>] @ [\<lparr>key = ''a'', val = AnyInt 2\<rparr>]"
      using WithValues_twice_carrier[of ctx "[AnyString ''a'', AnyInt 1]" "[AnyString ''a'', AnyInt 2]"]
      by auto
    show ?thesis
      by (simp add: c'' A car find_append_first split: option.splits)
  qed
  show ?thesis
    using A B C D[of ctx0] D[of "Some Background"] D[of None]
    by (simp add: orBackground_def)
qed

theorem GetFirstValue_first_match_witness:
  "''a'' \<noteq> [] \<and>
   carrier (WithValue Background contextKeyFields
      (FieldsData [\<lparr>key = ''b'', val = AnyInt 0\<rparr>, \<lparr>key = ''a'', val = AnyInt 1\<rparr>,
                   \<lparr>key = ''a'', val = AnyInt 2\<rparr>]))
     = [\<lparr>key = ''b'', val = AnyInt 0\<rparr>] @ \<lparr>key = ''a'', val = AnyInt 1\<rparr> # [\<lparr>key = ''a'', val = AnyInt 2\<rparr>] \<and>
   key \<lparr>key = ''a'', val = AnyInt 1\<rparr> = ''a'' \<and>
   ''a'' \<notin> key ` set [\<lparr>key = ''b'', val = AnyInt 0\<rparr>] \<and>
   GetFirstValue (Some (WithValue Background contextKeyFields
      (FieldsData [\<lparr>key = ''b'', val = AnyInt 0\<rparr>, \<lparr>key = ''a'', val = AnyInt 1\<rparr>,
                   \<lparr>key = ''a'', val = AnyInt 2\<rparr>]))) ''a'' = Inr (AnyInt 1, True)"
  using GetFirstValue_first_match
    [of "WithValue Background contextKeyFields
      (FieldsData [\<lparr>key = ''b'', val = AnyInt 0\<rparr>, \<lparr>key = ''a'', val = AnyInt 1\<rparr>,
                   \<lparr>key = ''a'', val = AnyInt 2\<rparr>])" "''a''" None
        "[\<lparr>key = ''b'', val = AnyInt 0\<rparr>]" "\<lparr>key = ''a'', val = AnyInt 1\<rparr>"
        "[\<lparr>key = ''a'', val = AnyInt 2\<rparr>]" None]
  by simp

section \<open>Properties: replacing and removing\<close>

lemma WithUniqueValues_Some: "\<exists>c'. WithUniqueValues ctx args = Some c'"
  using WithUniqueValues_carrier[of ctx args] by (cases "WithUniqueValues ctx args") auto

lemma keptFields_user_role [simp]:
  "keptFields [AnyString ''user'', AnyString ''Alice'', AnyString ''role'', AnyString ''admin'']
     = [\<lparr>key = ''user'', val = AnyString ''Alice''\<rparr>, \<lparr>key = ''role'', val = AnyString ''admin''\<rparr>]"
  by (simp add: keptFields_def)

lemma keptFields_user_session [simp]:
  "keptFields [AnyString ''user'', AnyString ''Bob'', AnyString ''session'', AnyString ''xyz'']
     = [\<lparr>key = ''user'', val = AnyString ''Bob''\<rparr>, \<lparr>key = ''session'', val = AnyString ''xyz''\<rparr>]"
  by (simp add: keptFields_def)


text \<open>
  C4. For every context (nil standing for the empty root context) and argument list,
  \<open>WithUniqueValues\<close> keeps the same fields of the argument list as \<open>WithValues\<close>
  does, removes from the existing carrier every field whose key is the key of a kept
  field, keeps the other existing fields in their order, and appends the kept fields at
  the end. After \<open>WithValues(ctx, user, Alice, role, admin)\<close> and then
  \<open>WithUniqueValues(_, user, Bob, session, xyz)\<close> the carrier is what \<open>ctx\<close> held under
  other keys, then \<open>role = admin\<close>, \<open>user = Bob\<close>, \<open>session = xyz\<close>; from the nil context,
  the decorator hands the sink the record with exactly these three attributes appended:
  a new record gets them as its only attributes, and so does, after its own, every
  record to whose array no other copy has written.
\<close>

theorem WithUniqueValues_replaces_and_appends:
  "map_option carrier (WithUniqueValues ctx args)
     = Some (filter (\<lambda>f. key f \<notin> key ` set (keptFields args)) (carrier (orBackground ctx))
             @ keptFields args)
   \<and> map_option carrier (WithValues ctx args)
     = Some (carrier (orBackground ctx) @ keptFields args)
   \<and> map_option carrier
        (WithUniqueValues
           (WithValues ctx0 [AnyString ''user'', AnyString ''Alice'', AnyString ''role'', AnyString ''admin''])
           [AnyString ''user'', AnyString ''Bob'', AnyString ''session'', AnyString ''xyz''])
     = Some (filter (\<lambda>f. key f \<notin> {''user'', ''session''}) (carrier (orBackground ctx0))
             @ [\<lparr>key = ''role'', val = AnyString ''admin''\<rparr>,
                \<lparr>key = ''user'', val = AnyString ''Bob''\<rparr>,
                \<lparr>key = ''session'', val = AnyString ''xyz''\<rparr>])
   \<and> (\<exists>c. WithUniqueValues
           (WithValues None [AnyString ''user'', AnyString ''Alice'', AnyString ''role'', AnyString ''admin''])
           [AnyString ''user'', AnyString ''Bob'', AnyString ''session'', AnyString ''xyz''] = Some c
        \<and> Handle slack (Handler (Some s)) (Some c) (NewRecord level msg) w
          = Inr (sinkHandle s (Some c)
                  ((NewRecord level msg)\<lparr>rFront := [Attr ''role'' (KindString ''admin''),
                                                     Attr ''user'' (KindString ''Bob''),
                                                     Attr ''session'' (KindString ''xyz'')]\<rparr>) w)
        \<and> Handle slack (Handler (Some s)) (Some c) r w
          = Inr (sinkHandle s (Some c) (addFields slack r (carrier c)) w)
        \<and> (wfRecord r \<longrightarrow>
             rAttrs (addFields slack r (carrier c))
               = rAttrs r @ [Attr ''role'' (KindString ''admin''),
                             Attr ''user'' (KindString ''Bob''),
                             Attr ''session'' (KindString ''xyz'')]
             \<and> rLevel (addFields slack r (carrier c)) = rLevel r
             \<and> rMessage (addFields slack r (carrier c)) = rMessage r))"
proof -
  let ?a1 = "[AnyString ''user'', AnyString ''Alice'', AnyString ''role'', AnyString ''admin'']"
  let ?a2 = "[AnyString ''user'', AnyString ''Bob'', AnyString ''session'', AnyString ''xyz'']"
  have E: "map_option carrier (WithUniqueValues (WithValues x ?a1) ?a2)
     = Some (filter (\<lambda>f. key f \<notin> {''user'', ''session''}) (carrier (orBackground x))
             @ [\<lparr>key = ''role'', val = AnyString ''admin''\<rparr>,
                \<lparr>key = ''user'', val = AnyString ''Bob''\<rparr>,
                \<lparr>key = ''session'', val = AnyString ''xyz''\<rparr>])" for x
  proof -
    obtain c' where c': "WithValues x ?a1 = Some c'" using WithValues_Some by blast
    then have 1: "carrier c' = carrier (orBackground x) @ keptFields ?a1"
      using WithValues_carrier[of x ?a1] by simp
    show ?thesis
      using WithUniqueValues_carrier[of "Some c'" ?a2]
      by (simp add: c' 1 orBackground_def)
  qed
  obtain c where c: "WithUniqueValues (WithValues None ?a1) ?a2 = Some c"
    using WithUniqueValues_Some by blast
  with E[of None] have car: "carrier c = [\<lparr>key = ''role'', val = AnyString ''admin''\<rparr>,
                \<lparr>key = ''user'', val = AnyString ''Bob''\<rparr>,
                \<lparr>key = ''session'', val = AnyString ''xyz''\<rparr>]"
    by (simp add: orBackground_def)
  have ka: "keptAttrs (carrier c) = [Attr ''role'' (KindString ''admin''),
                             Attr ''user'' (KindString ''Bob''),
                             Attr ''session'' (KindString ''xyz'')]"
    by (simp add: car keptAttrs_def slogAny_def)
  have H0: "Handle slack (Handler (Some s)) (Some c) (NewRecord level msg) w
          = Inr (sinkHandle s (Some c)
                  ((NewRecord level msg)\<lparr>rFront := [Attr ''role'' (KindString ''admin''),
                                                     Attr ''user'' (KindString ''Bob''),
                                                     Attr ''session'' (KindString ''xyz'')]\<rparr>) w)"
    unfolding Handle_carrier
    using addFields_front[OF wfRecord_NewRecord, of level msg "carrier c" slack]
    by (simp add: ka NewRecord_def nAttrsInline_def)
  have H: "Handle slack (Handler (Some s)) (Some c) r w
          = Inr (sinkHandle s (Some c) (addFields slack r (carrier c)) w)"
    by (rule Handle_carrier)
  have G: "wfRecord r \<longrightarrow>
             rAttrs (addFields slack r (carrier c))
               = rAttrs r @ [Attr ''role'' (KindString ''admin''),
                             Attr ''user'' (KindString ''Bob''),
                             Attr ''session'' (KindString ''xyz'')]
             \<and> rLevel (addFields slack r (carrier c)) = rLevel r
             \<and> rMessage (addFields slack r (carrier c)) = rMessage r"
    using addFields_props[of r slack "carrier c"] by (simp add: ka)
  have X: "\<exists>c. WithUniqueValues (WithValues None ?a1) ?a2 = Some c
        \<and> Handle slack (Handler (Some s)) (Some c) (NewRecord level msg) w
          = Inr (sinkHandle s (Some c)
                  ((NewRecord level msg)\<lparr>rFront := [Attr ''role'' (KindString ''admin''),
                                                     Attr ''user'' (KindString ''Bob''),
                                                     Attr ''session'' (KindString ''xyz'')]\<rparr>) w)
        \<and> Handle slack (Handler (Some s)) (Some c) r w
          = Inr (sinkHandle s (Some c) (addFields slack r (carrier c)) w)
        \<and> (wfRecord r \<longrightarrow>
             rAttrs (addFields slack r (carrier c))
               = rAttrs r @ [Attr ''role'' (KindString ''admin''),
                             Attr ''user'' (KindString ''Bob''),
                             Attr ''session'' (KindString ''xyz'')]
             \<and> rLevel (addFields slack r (carrier c)) = rLevel r
             \<and> rMessage (addFields slack r (carrier c)) = rMessage r)"
    using c H0 H G by blast
  show ?thesis
    using WithUniqueValues_carrier[of ctx args] WithValues_carrier[of ctx args] E[of ctx0] X
    by simp
qed

theorem WithUniqueValues_replaces_and_appends_witness:
  "wfRecord (NewRecord 0 ''msg'')
   \<and> WithUniqueValues
        (WithValues None [AnyString ''user'', AnyString ''Alice'', AnyString ''role'', AnyString ''admin''])
        [AnyString ''user'', AnyString ''Bob'', AnyString ''session'', AnyString ''xyz'']
     = Some (WithValue
               (WithValue Background contextKeyFields
                  (FieldsData [\<lparr>key = ''user'', val = AnyString ''Alice''\<rparr>,
                               \<lparr>key = ''role'', val = AnyString ''admin''\<rparr>]))
               contextKeyFields
               (FieldsData [\<lparr>key = ''role'', val = AnyString ''admin''\<rparr>,
                            \<lparr>key = ''user'', val = AnyString ''Bob''\<rparr>,
                            \<lparr>key = ''session'', val = AnyString ''xyz''\<rparr>]))
   \<and> Handle (\<lambda>n. 0) (Handler (Some (NewObservedHandler :: (string, ObservedLog list) sink)))
        (Some (WithValue
               (WithValue Background contextKeyFields
                  (FieldsData [\<lparr>key = ''user'', val = AnyString ''Alice''\<rparr>,
                               \<lparr>key = ''role'', val = AnyString ''admin''\<rparr>]))
               contextKeyFields
               (FieldsData [\<lparr>key = ''role'', val = AnyString ''admin''\<rparr>,
                            \<lparr>key = ''user'', val = AnyString ''Bob''\<rparr>,
                            \<lparr>key = ''session'', val = AnyString ''xyz''\<rparr>])))
        (NewRecord 0 ''msg'') []
     = Inr (None, [\<lparr>Level = 0, Message = ''msg'',
                     Attrs = [Attr ''role'' (KindString ''admin''),
                              Attr ''user'' (KindString ''Bob''),
                              Attr ''session'' (KindString ''xyz'')],
                     Groups = []\<rparr>])"
proof -
  let ?a1 = "[AnyString ''user'', AnyString ''Alice'', AnyString ''role'', AnyString ''admin'']"
  let ?a2 = "[AnyString ''user'', AnyString ''Bob'', AnyString ''session'', AnyString ''xyz'']"
  let ?C = "WithValue
               (WithValue Background contextKeyFields
                  (FieldsData [\<lparr>key = ''user'', val = AnyString ''Alice''\<rparr>,
                               \<lparr>key = ''role'', val = AnyString ''admin''\<rparr>]))
               contextKeyFields
               (FieldsData [\<lparr>key = ''role'', val = AnyString ''admin''\<rparr>,
                            \<lparr>key = ''user'', val = AnyString ''Bob''\<rparr>,
                            \<lparr>key = ''session'', val = AnyString ''xyz''\<rparr>])"
  let ?s = "NewObservedHandler :: (string, ObservedLog list) sink"
  let ?r = "NewRecord 0 ''msg''"
  have h1: "wfRecord ?r" by (simp add: wfRecord_def NewRecord_def)
  have h2: "WithUniqueValues (WithValues None ?a1) ?a2 = Some ?C"
    by (simp add: WithValues_eq WithUniqueValues_eq orBackground_def)
  from WithUniqueValues_replaces_and_appends
         [where slack = "\<lambda>n. 0" and s = ?s and r = ?r and w = "[]" and level = 0
            and msg = "''msg''"]
  obtain c where c: "WithUniqueValues (WithValues None ?a1) ?a2 = Some c"
    and hd: "Handle (\<lambda>n. 0) (Handler (Some ?s)) (Some c) ?r []
          = Inr (sinkHandle ?s (Some c) (addFields (\<lambda>n. 0) ?r (carrier c)) [])"
    and at: "wfRecord ?r \<longrightarrow>
             rAttrs (addFields (\<lambda>n. 0) ?r (carrier c))
               = rAttrs ?r @ [Attr ''role'' (KindString ''admin''),
                              Attr ''user'' (KindString ''Bob''),
                              Attr ''session'' (KindString ''xyz'')]
             \<and> rLevel (addFields (\<lambda>n. 0) ?r (carrier c)) = rLevel ?r
             \<and> rMessage (addFields (\<lambda>n. 0) ?r (carrier c)) = rMessage ?r"
    by blast
  from c h2 have cC: "c = ?C" by simp
  from at h1 have a: "rAttrs (addFields (\<lambda>n. 0) ?r (carrier c))
               = rAttrs ?r @ [Attr ''role'' (KindString ''admin''),
                              Attr ''user'' (KindString ''Bob''),
                              Attr ''session'' (KindString ''xyz'')]"
    and l: "rLevel (addFields (\<lambda>n. 0) ?r (carrier c)) = rLevel ?r"
    and m: "rMessage (addFields (\<lambda>n. 0) ?r (carrier c)) = rMessage ?r"
    by blast+
  have e: "Handle (\<lambda>n. 0) (Handler (Some ?s)) (Some c) ?r []
     = Inr (None, [\<lparr>Level = 0, Message = ''msg'',
                     Attrs = [Attr ''role'' (KindString ''admin''),
                              Attr ''user'' (KindString ''Bob''),
                              Attr ''session'' (KindString ''xyz'')],
                     Groups = []\<rparr>])"
    unfolding hd NewObservedHandler_Handle a l m by (simp add: NewRecord_def rAttrs_def)
  show ?thesis by (intro conjI h1 h2 e[unfolded cC])
qed

lemma firstValue_absent: "k \<notin> key ` set fs \<Longrightarrow> firstValue fs k = (AnyNil, False)"
  by (induction fs) auto

lemma keptFields_req_user [simp]:
  "keptFields [AnyString ''req'', AnyString ''abc'', AnyString ''req'', AnyString ''def'',
               AnyString ''user'', AnyString ''Jan'']
     = [\<lparr>key = ''req'', val = AnyString ''abc''\<rparr>, \<lparr>key = ''req'', val = AnyString ''def''\<rparr>,
        \<lparr>key = ''user'', val = AnyString ''Jan''\<rparr>]"
  by (simp add: keptFields_def)

lemma WithoutKeys_all_removed:
  assumes "carrier c \<noteq> []" and "ks \<noteq> []" and "filter (\<lambda>f. key f \<notin> set ks) (carrier c) = []"
  shows "WithoutKeys (Some c) ks = Some (WithValue c contextKeyFields NilValue)"
  using assms
  by (auto simp: WithoutKeys_def Let_def carrier_def rangeKeep_filter makeKeySet_set
        split: option.splits)

lemma lookups_on_empty_carrier:
  assumes "map_option carrier ctx = Some []"
  shows "GetFirstValue ctx k = Inr (AnyNil, False)" and "HasKey ctx k = Inr False"
proof -
  from assms obtain c where c: "ctx = Some c" "carrier c = []" by (cases ctx) auto
  show "GetFirstValue ctx k = Inr (AnyNil, False)"
    by (simp add: c GetFirstValue_carrier)
  show "HasKey ctx k = Inr False"
    by (simp add: c HasKey_carrier)
qed

text \<open>
  C5. For every context and key list, the carrier after \<open>WithoutKeys\<close> is the existing
  fields whose key is not among the keys, in their order, so every occurrence of a removed
  key is gone. On the nil context and on an empty key list the input is returned as it
  is. When no field remains, lookups on the result find nothing, and if fields were there
  before the binding is cleared (bound to nil). Removing \<open>req\<close> after adding
  \<open>req = abc, req = def, user = Jan\<close> leaves \<open>user = Jan\<close> only.
\<close>

theorem WithoutKeys_removes_keys:
  "map_option carrier (WithoutKeys (Some c) keys)
     = Some (filter (\<lambda>f. key f \<notin> set keys) (carrier c))
   \<and> WithoutKeys None keys = None
   \<and> WithoutKeys ctx [] = ctx
   \<and> (filter (\<lambda>f. key f \<notin> set ks) (carrier c0) = [] \<longrightarrow>
        GetFirstValue (WithoutKeys (Some c0) ks) k = Inr (AnyNil, False)
        \<and> HasKey (WithoutKeys (Some c0) ks) k = Inr False
        \<and> (carrier c0 \<noteq> [] \<and> ks \<noteq> [] \<longrightarrow>
             WithoutKeys (Some c0) ks = Some (WithValue c0 contextKeyFields NilValue)))
   \<and> map_option carrier
        (WithoutKeys
           (WithValues None [AnyString ''req'', AnyString ''abc'', AnyString ''req'', AnyString ''def'',
                             AnyString ''user'', AnyString ''Jan''])
           [''req''])
     = Some [\<lparr>key = ''user'', val = AnyString ''Jan''\<rparr>]"
proof -
  have A: "map_option carrier (WithoutKeys (Some c) keys)
     = Some (filter (\<lambda>f. key f \<notin> set keys) (carrier c))" for c keys
    by (rule WithoutKeys_carrier)
  have B: "WithoutKeys None keys = None" by (simp add: WithoutKeys_def)
  have C: "WithoutKeys ctx [] = ctx" by (cases ctx) (simp_all add: WithoutKeys_def)
  have D: "filter (\<lambda>f. key f \<notin> set ks) (carrier c0) = [] \<longrightarrow>
        GetFirstValue (WithoutKeys (Some c0) ks) k = Inr (AnyNil, False)
        \<and> HasKey (WithoutKeys (Some c0) ks) k = Inr False
        \<and> (carrier c0 \<noteq> [] \<and> ks \<noteq> [] \<longrightarrow>
             WithoutKeys (Some c0) ks = Some (WithValue c0 contextKeyFields NilValue))"
  proof (intro impI conjI)
    assume e: "filter (\<lambda>f. key f \<notin> set ks) (carrier c0) = []"
    have m: "map_option carrier (WithoutKeys (Some c0) ks) = Some []"
      by (simp only: A e)
    show "GetFirstValue (WithoutKeys (Some c0) ks) k = Inr (AnyNil, False)"
      by (rule lookups_on_empty_carrier[OF m])
    show "HasKey (WithoutKeys (Some c0) ks) k = Inr False"
      by (rule lookups_on_empty_carrier[OF m])
    assume "carrier c0 \<noteq> [] \<and> ks \<noteq> []"
    then show "WithoutKeys (Some c0) ks = Some (WithValue c0 contextKeyFields NilValue)"
      using e by (simp add: WithoutKeys_all_removed)
  qed
  have E: "map_option carrier
        (WithoutKeys
           (WithValues None [AnyString ''req'', AnyString ''abc'', AnyString ''req'', AnyString ''def'',
                             AnyString ''user'', AnyString ''Jan''])
           [''req''])
     = Some [\<lparr>key = ''user'', val = AnyString ''Jan''\<rparr>]"
  proof -
    let ?a = "[AnyString ''req'', AnyString ''abc'', AnyString ''req'', AnyString ''def'',
               AnyString ''user'', AnyString ''Jan'']"
    obtain c' where c': "WithValues None ?a = Some c'" using WithValues_Some by blast
    then have "carrier c' = keptFields ?a"
      using WithValues_carrier[of None ?a] by (simp add: orBackground_def)
    then show ?thesis using A[of c' "[''req'']"] by (simp add: c')
  qed
  show ?thesis using A B C D E by blast
qed

theorem WithoutKeys_removes_keys_witness:
  "filter (\<lambda>f. key f \<notin> set [''req''])
      (carrier (WithValue Background contextKeyFields
         (FieldsData [\<lparr>key = ''req'', val = AnyString ''abc''\<rparr>,
                      \<lparr>key = ''req'', val = AnyString ''def''\<rparr>]))) = []
   \<and> carrier (WithValue Background contextKeyFields
         (FieldsData [\<lparr>key = ''req'', val = AnyString ''abc''\<rparr>,
                      \<lparr>key = ''req'', val = AnyString ''def''\<rparr>])) \<noteq> []
   \<and> [''req''] \<noteq> []
   \<and> GetFirstValue (WithoutKeys (Some (WithValue Background contextKeyFields
         (FieldsData [\<lparr>key = ''req'', val = AnyString ''abc''\<rparr>,
                      \<lparr>key = ''req'', val = AnyString ''def''\<rparr>]))) [''req'']) ''req''
       = Inr (AnyNil, False)
   \<and> HasKey (WithoutKeys (Some (WithValue Background contextKeyFields
         (FieldsData [\<lparr>key = ''req'', val = AnyString ''abc''\<rparr>,
                      \<lparr>key = ''req'', val = AnyString ''def''\<rparr>]))) [''req'']) ''req''
       = Inr False
   \<and> WithoutKeys (Some (WithValue Background contextKeyFields
         (FieldsData [\<lparr>key = ''req'', val = AnyString ''abc''\<rparr>,
                      \<lparr>key = ''req'', val = AnyString ''def''\<rparr>]))) [''req'']
       = Some (WithValue (WithValue Background contextKeyFields
         (FieldsData [\<lparr>key = ''req'', val = AnyString ''abc''\<rparr>,
                      \<lparr>key = ''req'', val = AnyString ''def''\<rparr>])) contextKeyFields NilValue)"
proof -
  let ?c = "WithValue Background contextKeyFields
         (FieldsData [\<lparr>key = ''req'', val = AnyString ''abc''\<rparr>,
                      \<lparr>key = ''req'', val = AnyString ''def''\<rparr>])"
  have h1: "filter (\<lambda>f. key f \<notin> set [''req'']) (carrier ?c) = []" by simp
  have h2: "carrier ?c \<noteq> [] \<and> [''req''] \<noteq> []" by simp
  from WithoutKeys_removes_keys[of Background "[]" None "[''req'']" ?c "''req''"]
  have "filter (\<lambda>f. key f \<notin> set [''req'']) (carrier ?c) = [] \<longrightarrow>
        GetFirstValue (WithoutKeys (Some ?c) [''req'']) ''req'' = Inr (AnyNil, False)
        \<and> HasKey (WithoutKeys (Some ?c) [''req'']) ''req'' = Inr False
        \<and> (carrier ?c \<noteq> [] \<and> [''req''] \<noteq> [] \<longrightarrow>
             WithoutKeys (Some ?c) [''req''] = Some (WithValue ?c contextKeyFields NilValue))"
    by (elim conjE)
  with h1 h2 show ?thesis by blast
qed

section \<open>Properties: the decorator\<close>








text \<open>
  C10. On the nil context, \<open>GetFirstValue\<close> and \<open>HasKey\<close> return \<open>(nil, false)\<close> and
  \<open>false\<close> for the empty key and fault for every other key. \<open>WithValues\<close> and
  \<open>WithUniqueValues\<close> behave on nil as on the empty root context and never return nil;
  no other operation substitutes the root: \<open>WithoutKeys\<close> returns nil, \<open>WithoutAllKeys\<close>
  and \<open>Handle\<close> fault.
\<close>

theorem nil_context_asymmetry:
  "GetFirstValue None k = (if k = [] then Inr (AnyNil, False) else Inl NilContext)
   \<and> HasKey None k = (if k = [] then Inr False else Inl NilContext)
   \<and> WithValues None args = WithValues (Some Background) args
   \<and> WithUniqueValues None args = WithUniqueValues (Some Background) args
   \<and> WithValues None args \<noteq> None
   \<and> WithUniqueValues None args \<noteq> None
   \<and> WithoutKeys None keys = None
   \<and> WithoutAllKeys None = Inl NilParent
   \<and> Handle slack h None r w = Inl NilContext"
  using WithValues_Some[of None args] WithUniqueValues_Some[of None args]
  by (auto simp: GetFirstValue_def HasKey_def WithValues_def WithUniqueValues_def
        WithoutKeys_def WithoutAllKeys_def orBackground_def)

section \<open>Properties: chains of calls\<close>

lemma applyCall_Some: "\<exists>c'. applyCall x (Some c) = Inr (Some c')"
  by (cases x) (auto simp: WithValues_eq WithUniqueValues_eq WithoutKeys_eq WithoutAllKeys_def)

lemma applyCall_add_Some: "isAdd x \<Longrightarrow> \<exists>c'. applyCall x ctx = Inr (Some c')"
  by (cases x) (auto simp: WithValues_eq WithUniqueValues_eq)

lemma applyCalls_Some: "\<exists>c'. applyCalls calls (Some c) = Inr (Some c')"
proof (induction calls arbitrary: c)
  case Nil
  show ?case by simp
next
  case (Cons x calls)
  obtain c1 where "applyCall x (Some c) = Inr (Some c1)" using applyCall_Some by blast
  with Cons[of c1] show ?case by simp
qed

lemma applyCalls_adds_Some:
  assumes "list_all isAdd calls" and "start = None \<longrightarrow> calls \<noteq> []"
  shows "\<exists>c. applyCalls calls start = Inr (Some c)"
proof (cases calls)
  case Nil
  with assms obtain c where "start = Some c" by (cases start) auto
  with Nil show ?thesis by simp
next
  case (Cons x rest)
  with assms have "isAdd x" by simp
  then obtain c1 where "applyCall x start = Inr (Some c1)" using applyCall_add_Some by blast
  with Cons applyCalls_Some[of rest c1] show ?thesis by simp
qed

lemma Handle_empty_carrier:
  "carrier c = [] \<Longrightarrow> Handle slack (Handler (Some s)) (Some c) r w = Inr (sinkHandle s (Some c) r w)"
  unfolding Handle_carrier by simp

lemma Handle_empty_carrier_option:
  assumes "map_option carrier ctx = Some []"
  shows "Handle slack (Handler (Some s)) ctx r w = Inr (sinkHandle s ctx r w)"
proof -
  from assms obtain c where c: "ctx = Some c" "carrier c = []" by (cases ctx) auto
  then show ?thesis using Handle_empty_carrier by simp
qed

lemma filter_all_removed: "key ` set fs \<subseteq> set keys \<Longrightarrow> filter (\<lambda>f. key f \<notin> set keys) fs = []"
  by (induction fs) auto

text \<open>
  C6. Take any context reached by a sequence of \<open>WithValues\<close> and \<open>WithUniqueValues\<close>
  calls, from a context proper or, with at least one call, from nil. \<open>WithoutAllKeys\<close>
  on it does not fault and yields a context on which \<open>GetFirstValue\<close> returns
  \<open>(nil, false)\<close> and \<open>HasKey\<close> returns \<open>false\<close> for every key, and with which the
  decorator hands the sink the record exactly as it came: no propagated attribute is
  added, the attributes given at the call site stay. Emptying the carrier by
  \<open>WithoutKeys\<close> with all its keys gives the same answers from both accessors and the same
  emission.
\<close>

theorem WithoutAllKeys_clears:
  "list_all isAdd calls \<and> (start = None \<longrightarrow> calls \<noteq> []) \<longrightarrow>
     (\<exists>c. applyCalls calls start = Inr (Some c)
        \<and> WithoutAllKeys (Some c) = Inr (Some (WithValue c contextKeyFields NilValue))
        \<and> GetFirstValue (Some (WithValue c contextKeyFields NilValue)) k = Inr (AnyNil, False)
        \<and> HasKey (Some (WithValue c contextKeyFields NilValue)) k = Inr False
        \<and> Handle slack (Handler (Some s)) (Some (WithValue c contextKeyFields NilValue)) r w
            = Inr (sinkHandle s (Some (WithValue c contextKeyFields NilValue)) r w)
        \<and> (key ` set (carrier c) \<subseteq> set keys \<longrightarrow>
             GetFirstValue (WithoutKeys (Some c) keys) k = Inr (AnyNil, False)
             \<and> HasKey (WithoutKeys (Some c) keys) k = Inr False
             \<and> Handle slack (Handler (Some s)) (WithoutKeys (Some c) keys) r w
                 = Inr (sinkHandle s (WithoutKeys (Some c) keys) r w)))"
proof (intro impI)
  assume h: "list_all isAdd calls \<and> (start = None \<longrightarrow> calls \<noteq> [])"
  then obtain c where c: "applyCalls calls start = Inr (Some c)"
    using applyCalls_adds_Some by blast
  let ?c' = "WithValue c contextKeyFields NilValue"
  have 1: "WithoutAllKeys (Some c) = Inr (Some ?c')" by (simp add: WithoutAllKeys_def)
  have 2: "GetFirstValue (Some ?c') k = Inr (AnyNil, False)"
    by (simp add: GetFirstValue_carrier)
  have 3: "HasKey (Some ?c') k = Inr False" by (simp add: HasKey_carrier)
  have 4: "Handle slack (Handler (Some s)) (Some ?c') r w = Inr (sinkHandle s (Some ?c') r w)"
    by (rule Handle_empty_carrier) simp
  have 5: "key ` set (carrier c) \<subseteq> set keys \<longrightarrow>
             GetFirstValue (WithoutKeys (Some c) keys) k = Inr (AnyNil, False)
             \<and> HasKey (WithoutKeys (Some c) keys) k = Inr False
             \<and> Handle slack (Handler (Some s)) (WithoutKeys (Some c) keys) r w
                 = Inr (sinkHandle s (WithoutKeys (Some c) keys) r w)"
  proof (intro impI)
    assume "key ` set (carrier c) \<subseteq> set keys"
    then have m: "map_option carrier (WithoutKeys (Some c) keys) = Some []"
      by (simp only: WithoutKeys_carrier filter_all_removed)
    show "GetFirstValue (WithoutKeys (Some c) keys) k = Inr (AnyNil, False)
             \<and> HasKey (WithoutKeys (Some c) keys) k = Inr False
             \<and> Handle slack (Handler (Some s)) (WithoutKeys (Some c) keys) r w
                 = Inr (sinkHandle s (WithoutKeys (Some c) keys) r w)"
      using lookups_on_empty_carrier[OF m] Handle_empty_carrier_option[OF m] by simp
  qed
  from c 1 2 3 4 5 show "\<exists>c. applyCalls calls start = Inr (Some c)
        \<and> WithoutAllKeys (Some c) = Inr (Some (WithValue c contextKeyFields NilValue))
        \<and> GetFirstValue (Some (WithValue c contextKeyFields NilValue)) k = Inr (AnyNil, False)
        \<and> HasKey (Some (WithValue c contextKeyFields NilValue)) k = Inr False
        \<and> Handle slack (Handler (Some s)) (Some (WithValue c contextKeyFields NilValue)) r w
            = Inr (sinkHandle s (Some (WithValue c contextKeyFields NilValue)) r w)
        \<and> (key ` set (carrier c) \<subseteq> set keys \<longrightarrow>
             GetFirstValue (WithoutKeys (Some c) keys) k = Inr (AnyNil, False)
             \<and> HasKey (WithoutKeys (Some c) keys) k = Inr False
             \<and> Handle slack (Handler (Some s)) (WithoutKeys (Some c) keys) r w
                 = Inr (sinkHandle s (WithoutKeys (Some c) keys) r w))"
    by blast
qed


theorem WithoutAllKeys_clears_witness:
  "list_all isAdd [CallWithValues [AnyString ''id'', AnyInt 123, AnyString ''status'', AnyString ''ok'']]
   \<and> [CallWithValues [AnyString ''id'', AnyInt 123, AnyString ''status'', AnyString ''ok'']] \<noteq> []
   \<and> applyCalls [CallWithValues [AnyString ''id'', AnyInt 123, AnyString ''status'', AnyString ''ok'']] None
       = Inr (Some (WithValue Background contextKeyFields
           (FieldsData [\<lparr>key = ''id'', val = AnyInt 123\<rparr>, \<lparr>key = ''status'', val = AnyString ''ok''\<rparr>])))
   \<and> GetFirstValue (Some (WithValue (WithValue Background contextKeyFields
           (FieldsData [\<lparr>key = ''id'', val = AnyInt 123\<rparr>, \<lparr>key = ''status'', val = AnyString ''ok''\<rparr>]))
         contextKeyFields NilValue)) ''id'' = Inr (AnyNil, False)
   \<and> HasKey (Some (WithValue (WithValue Background contextKeyFields
           (FieldsData [\<lparr>key = ''id'', val = AnyInt 123\<rparr>, \<lparr>key = ''status'', val = AnyString ''ok''\<rparr>]))
         contextKeyFields NilValue)) ''id'' = Inr False
   \<and> Handle (\<lambda>n. 0) (Handler (Some (NewObservedHandler :: (string, ObservedLog list) sink)))
        (Some (WithValue (WithValue Background contextKeyFields
           (FieldsData [\<lparr>key = ''id'', val = AnyInt 123\<rparr>, \<lparr>key = ''status'', val = AnyString ''ok''\<rparr>]))
         contextKeyFields NilValue))
        \<lparr>rLevel = 0, rMessage = ''After clear'', rFront = [Attr ''site'' (KindInt64 7)],
         rBack = [], rSpare = []\<rparr> []
       = Inr (None, [\<lparr>Level = 0, Message = ''After clear'', Attrs = [Attr ''site'' (KindInt64 7)],
                       Groups = []\<rparr>])
   \<and> key ` set (carrier (WithValue Background contextKeyFields
           (FieldsData [\<lparr>key = ''id'', val = AnyInt 123\<rparr>, \<lparr>key = ''status'', val = AnyString ''ok''\<rparr>])))
       \<subseteq> set [''id'', ''status'']
   \<and> GetFirstValue (WithoutKeys (Some (WithValue Background contextKeyFields
           (FieldsData [\<lparr>key = ''id'', val = AnyInt 123\<rparr>, \<lparr>key = ''status'', val = AnyString ''ok''\<rparr>])))
         [''id'', ''status'']) ''id'' = Inr (AnyNil, False)
   \<and> HasKey (WithoutKeys (Some (WithValue Background contextKeyFields
           (FieldsData [\<lparr>key = ''id'', val = AnyInt 123\<rparr>, \<lparr>key = ''status'', val = AnyString ''ok''\<rparr>])))
         [''id'', ''status'']) ''id'' = Inr False"
proof -
  let ?calls = "[CallWithValues [AnyString ''id'', AnyInt 123, AnyString ''status'', AnyString ''ok'']]"
  let ?C = "WithValue Background contextKeyFields
           (FieldsData [\<lparr>key = ''id'', val = AnyInt 123\<rparr>, \<lparr>key = ''status'', val = AnyString ''ok''\<rparr>])"
  let ?r = "\<lparr>rLevel = 0, rMessage = ''After clear'', rFront = [Attr ''site'' (KindInt64 7)],
         rBack = [], rSpare = []\<rparr>"
  let ?s = "NewObservedHandler :: (string, ObservedLog list) sink"
  have e: "applyCalls ?calls None = Inr (Some ?C)"
    by (simp add: WithValues_eq keptFields_def orBackground_def)
  have hyp: "list_all isAdd ?calls \<and> (None = (None :: Context) \<longrightarrow> ?calls \<noteq> [])" by simp
  have sub: "key ` set (carrier ?C) \<subseteq> set [''id'', ''status'']" by simp
  from WithoutAllKeys_clears[of ?calls None "''id''" "\<lambda>n. 0" ?s ?r "[]" "[''id'', ''status'']"] hyp
  obtain c where c: "applyCalls ?calls None = Inr (Some c)"
    and g: "GetFirstValue (Some (WithValue c contextKeyFields NilValue)) ''id'' = Inr (AnyNil, False)"
    and k: "HasKey (Some (WithValue c contextKeyFields NilValue)) ''id'' = Inr False"
    and hd: "Handle (\<lambda>n. 0) (Handler (Some ?s)) (Some (WithValue c contextKeyFields NilValue)) ?r []
            = Inr (sinkHandle ?s (Some (WithValue c contextKeyFields NilValue)) ?r [])"
    and wk: "key ` set (carrier c) \<subseteq> set [''id'', ''status''] \<longrightarrow>
             GetFirstValue (WithoutKeys (Some c) [''id'', ''status'']) ''id'' = Inr (AnyNil, False)
             \<and> HasKey (WithoutKeys (Some c) [''id'', ''status'']) ''id'' = Inr False
             \<and> Handle (\<lambda>n. 0) (Handler (Some ?s)) (WithoutKeys (Some c) [''id'', ''status'']) ?r []
                 = Inr (sinkHandle ?s (WithoutKeys (Some c) [''id'', ''status'']) ?r [])"
    by blast
  from c e have cC: "c = ?C" by simp
  have sk: "sinkHandle ?s (Some (WithValue ?C contextKeyFields NilValue)) ?r []
      = (None, [\<lparr>Level = 0, Message = ''After clear'', Attrs = [Attr ''site'' (KindInt64 7)],
                       Groups = []\<rparr>])"
    by (simp add: NewObservedHandler_def rAttrs_def)
  from hyp e g k hd wk sub sk show ?thesis unfolding cC by simp
qed

lemma noop_identity: "isNoop x \<Longrightarrow> applyCall x (Some c) = Inr (Some c)"
  by (cases x) (auto simp: WithValues_eq WithoutKeys_eq orBackground_def)

lemma applyCalls_noops: "list_all isNoop calls \<Longrightarrow> applyCalls calls (Some c) = Inr (Some c)"
  by (induction calls) (auto simp: noop_identity)

lemma applyCalls_skip_noops:
  "applyCalls calls (Some c) = applyCalls (filter (\<lambda>x. \<not> isNoop x) calls) (Some c)"
proof (induction calls arbitrary: c)
  case Nil
  show ?case by simp
next
  case (Cons x calls)
  show ?case
  proof (cases "isNoop x")
    case True
    then show ?thesis using Cons[of c] by (simp add: noop_identity)
  next
    case False
    obtain c1 where "applyCall x (Some c) = Inr (Some c1)" using applyCall_Some by blast
    with False Cons[of c1] show ?thesis by simp
  qed
qed

text \<open>
  C9. A \<open>WithValues\<close> call that keeps no pair returns the context it was given, and so
  does \<open>WithoutKeys\<close> with no key: no context is derived. (Given nil, \<open>WithValues\<close>
  returns the empty root context, which nil stands for.) A chain of such calls leaves a
  context as it is, and a chain of any calls ends in the same context as the chain without
  its no-op calls. The decorator then adds the carrier \<open>F\<close> of that context to the record
  field by field; on a record to whose array no other copy has written, the sink finds,
  after the attributes of the record, one attribute for each field of \<open>F\<close> whose value
  \<open>slog.Any\<close> does not turn into an empty group, with the keys and the order of \<open>F\<close>
  and the values \<open>slog.Any\<close> makes: at most \<open>|F|\<close> attributes, and \<open>|F|\<close> when no field
  holds an empty group.
\<close>

theorem noop_calls_are_identity:
  "(keptFields args = [] \<longrightarrow>
      WithValues (Some c) args = Some c \<and> WithValues None args = Some Background)
   \<and> WithoutKeys ctx [] = ctx
   \<and> (list_all isNoop noops \<longrightarrow> applyCalls noops (Some c) = Inr (Some c))
   \<and> applyCalls calls (Some c) = applyCalls (filter (\<lambda>x. \<not> isNoop x) calls) (Some c)
   \<and> (\<exists>c'. applyCalls calls (Some c) = Inr (Some c')
          \<and> applyCalls (filter (\<lambda>x. \<not> isNoop x) calls) (Some c) = Inr (Some c')
          \<and> Handle slack (Handler (Some s)) (Some c') r w
              = Inr (sinkHandle s (Some c') (addFields slack r (carrier c')) w)
          \<and> (wfRecord r \<longrightarrow>
                rAttrs (addFields slack r (carrier c'))
                  = rAttrs r @ filter (\<lambda>a. \<not> isEmptyGroup (attrValue a))
                                 (map (\<lambda>f. Attr (key f) (AnyValue (val f))) (carrier c'))
                \<and> length (rAttrs (addFields slack r (carrier c')))
                    \<le> length (rAttrs r) + length (carrier c')
                \<and> (list_all (\<lambda>f. \<not> isEmptyGroup (AnyValue (val f))) (carrier c') \<longrightarrow>
                      rAttrs (addFields slack r (carrier c'))
                        = rAttrs r @ map (\<lambda>f. Attr (key f) (AnyValue (val f))) (carrier c')
                      \<and> length (rAttrs (addFields slack r (carrier c')))
                          = length (rAttrs r) + length (carrier c'))))"
proof -
  have A: "keptFields args = [] \<longrightarrow>
      WithValues (Some c) args = Some c \<and> WithValues None args = Some Background"
    by (simp add: WithValues_eq orBackground_def)
  have B: "WithoutKeys ctx [] = ctx" by (cases ctx) (simp_all add: WithoutKeys_def)
  have C: "list_all isNoop noops \<longrightarrow> applyCalls noops (Some c) = Inr (Some c)"
    by (simp add: applyCalls_noops)
  note D = applyCalls_skip_noops[of calls c]
  obtain c' where c': "applyCalls calls (Some c) = Inr (Some c')"
    using applyCalls_Some by blast
  let ?as = "map (\<lambda>f. Attr (key f) (AnyValue (val f))) (carrier c')"
  have E: "Handle slack (Handler (Some s)) (Some c') r w
              = Inr (sinkHandle s (Some c') (addFields slack r (carrier c')) w)"
    by (rule Handle_carrier)
  have k: "keptAttrs (carrier c') = filter (\<lambda>a. \<not> isEmptyGroup (attrValue a)) ?as"
    by (simp add: keptAttrs_def slogAny_def)
  have all: "list_all (\<lambda>f. \<not> isEmptyGroup (AnyValue (val f))) (carrier c') \<Longrightarrow>
      filter (\<lambda>a. \<not> isEmptyGroup (attrValue a)) ?as = ?as"
    by (simp add: list_all_iff)
  have F: "wfRecord r \<longrightarrow>
                rAttrs (addFields slack r (carrier c'))
                  = rAttrs r @ filter (\<lambda>a. \<not> isEmptyGroup (attrValue a)) ?as
                \<and> length (rAttrs (addFields slack r (carrier c')))
                    \<le> length (rAttrs r) + length (carrier c')
                \<and> (list_all (\<lambda>f. \<not> isEmptyGroup (AnyValue (val f))) (carrier c') \<longrightarrow>
                      rAttrs (addFields slack r (carrier c')) = rAttrs r @ ?as
                      \<and> length (rAttrs (addFields slack r (carrier c')))
                          = length (rAttrs r) + length (carrier c'))"
  proof (intro impI)
    assume w: "wfRecord r"
    have e: "rAttrs (addFields slack r (carrier c'))
        = rAttrs r @ filter (\<lambda>a. \<not> isEmptyGroup (attrValue a)) ?as"
      using addFields_props[OF w, of slack "carrier c'"] by (simp only: k)
    have "length (filter (\<lambda>a. \<not> isEmptyGroup (attrValue a)) ?as) \<le> length ?as"
      by (rule length_filter_le)
    then have l: "length (rAttrs (addFields slack r (carrier c')))
        \<le> length (rAttrs r) + length (carrier c')"
      by (simp add: e)
    have g: "list_all (\<lambda>f. \<not> isEmptyGroup (AnyValue (val f))) (carrier c') \<longrightarrow>
                      rAttrs (addFields slack r (carrier c')) = rAttrs r @ ?as
                      \<and> length (rAttrs (addFields slack r (carrier c')))
                          = length (rAttrs r) + length (carrier c')"
      using all by (simp add: e)
    from e l g show "rAttrs (addFields slack r (carrier c'))
                  = rAttrs r @ filter (\<lambda>a. \<not> isEmptyGroup (attrValue a)) ?as
                \<and> length (rAttrs (addFields slack r (carrier c')))
                    \<le> length (rAttrs r) + length (carrier c')
                \<and> (list_all (\<lambda>f. \<not> isEmptyGroup (AnyValue (val f))) (carrier c') \<longrightarrow>
                      rAttrs (addFields slack r (carrier c')) = rAttrs r @ ?as
                      \<and> length (rAttrs (addFields slack r (carrier c')))
                          = length (rAttrs r) + length (carrier c'))"
      by (intro conjI)
  qed
  from c' D have c'': "applyCalls (filter (\<lambda>x. \<not> isNoop x) calls) (Some c) = Inr (Some c')"
    by simp
  from c' c'' E F have X: "\<exists>c'. applyCalls calls (Some c) = Inr (Some c')
          \<and> applyCalls (filter (\<lambda>x. \<not> isNoop x) calls) (Some c) = Inr (Some c')
          \<and> Handle slack (Handler (Some s)) (Some c') r w
              = Inr (sinkHandle s (Some c') (addFields slack r (carrier c')) w)
          \<and> (wfRecord r \<longrightarrow>
                rAttrs (addFields slack r (carrier c'))
                  = rAttrs r @ filter (\<lambda>a. \<not> isEmptyGroup (attrValue a))
                                 (map (\<lambda>f. Attr (key f) (AnyValue (val f))) (carrier c'))
                \<and> length (rAttrs (addFields slack r (carrier c')))
                    \<le> length (rAttrs r) + length (carrier c')
                \<and> (list_all (\<lambda>f. \<not> isEmptyGroup (AnyValue (val f))) (carrier c') \<longrightarrow>
                      rAttrs (addFields slack r (carrier c'))
                        = rAttrs r @ map (\<lambda>f. Attr (key f) (AnyValue (val f))) (carrier c')
                      \<and> length (rAttrs (addFields slack r (carrier c')))
                          = length (rAttrs r) + length (carrier c')))"
    by blast
  from A B C D X show ?thesis by (intro conjI)
qed

theorem noop_calls_are_identity_witness:
  "keptFields [AnyString '''', AnyInt 1, AnyInt 123, AnyString ''bad'', AnyString ''odd''] = []
   \<and> WithValues (Some (WithValue Background contextKeyFields (FieldsData [\<lparr>key = ''a'', val = AnyInt 1\<rparr>])))
        [AnyString '''', AnyInt 1, AnyInt 123, AnyString ''bad'', AnyString ''odd'']
       = Some (WithValue Background contextKeyFields (FieldsData [\<lparr>key = ''a'', val = AnyInt 1\<rparr>]))
   \<and> list_all isNoop [CallWithValues [AnyString '''', AnyInt 1], CallWithoutKeys [], CallWithValues []]
   \<and> applyCalls [CallWithValues [AnyString '''', AnyInt 1], CallWithoutKeys [], CallWithValues []]
        (Some (WithValue Background contextKeyFields (FieldsData [\<lparr>key = ''a'', val = AnyInt 1\<rparr>])))
       = Inr (Some (WithValue Background contextKeyFields (FieldsData [\<lparr>key = ''a'', val = AnyInt 1\<rparr>])))
   \<and> wfRecord (NewRecord 0 ''msg'')
   \<and> list_all (\<lambda>f. \<not> isEmptyGroup (AnyValue (val f)))
        (carrier (WithValue Background contextKeyFields (FieldsData [\<lparr>key = ''a'', val = AnyInt 1\<rparr>])))
   \<and> Handle (\<lambda>n. 0) (Handler (Some (NewObservedHandler :: (string, ObservedLog list) sink)))
        (Some (WithValue Background contextKeyFields (FieldsData [\<lparr>key = ''a'', val = AnyInt 1\<rparr>])))
        (NewRecord 0 ''msg'') []
       = Inr (None, [\<lparr>Level = 0, Message = ''msg'', Attrs = [Attr ''a'' (KindInt64 1)],
                      Groups = []\<rparr>])"
proof -
  let ?c = "WithValue Background contextKeyFields (FieldsData [\<lparr>key = ''a'', val = AnyInt 1\<rparr>])"
  let ?args = "[AnyString '''', AnyInt 1, AnyInt 123, AnyString ''bad'', AnyString ''odd'']"
  let ?noops = "[CallWithValues [AnyString '''', AnyInt 1], CallWithoutKeys [], CallWithValues []]"
  let ?s = "NewObservedHandler :: (string, ObservedLog list) sink"
  let ?r = "NewRecord 0 ''msg''"
  have h1: "keptFields ?args = []" by (simp add: keptFields_def)
  have h2: "list_all isNoop ?noops" by (simp add: keptFields_def)
  have h3: "wfRecord ?r" by (simp add: wfRecord_def NewRecord_def)
  have h4: "list_all (\<lambda>f. \<not> isEmptyGroup (AnyValue (val f))) (carrier ?c)" by simp
  note t = noop_calls_are_identity[of ?args ?c None ?noops ?noops "\<lambda>n. 0" ?s ?r "[]"]
  from t h1 have a: "WithValues (Some ?c) ?args = Some ?c" by blast
  from t h2 have b: "applyCalls ?noops (Some ?c) = Inr (Some ?c)" by blast
  from t h3 h4 obtain c' where c': "applyCalls ?noops (Some ?c) = Inr (Some c')"
    and hd: "Handle (\<lambda>n. 0) (Handler (Some ?s)) (Some c') ?r []
              = Inr (sinkHandle ?s (Some c') (addFields (\<lambda>n. 0) ?r (carrier c')) [])"
    and at: "list_all (\<lambda>f. \<not> isEmptyGroup (AnyValue (val f))) (carrier c') \<longrightarrow>
                rAttrs (addFields (\<lambda>n. 0) ?r (carrier c'))
                  = rAttrs ?r @ map (\<lambda>f. Attr (key f) (AnyValue (val f))) (carrier c')"
    by blast
  from c' b have cc: "c' = ?c" by simp
  from at h4 have at': "rAttrs (addFields (\<lambda>n. 0) ?r (carrier ?c))
      = rAttrs ?r @ map (\<lambda>f. Attr (key f) (AnyValue (val f))) (carrier ?c)"
    unfolding cc by blast
  from addFields_props[OF h3, of "\<lambda>n. 0" "carrier ?c"]
  have l: "rLevel (addFields (\<lambda>n. 0) ?r (carrier ?c)) = rLevel ?r"
    and m: "rMessage (addFields (\<lambda>n. 0) ?r (carrier ?c)) = rMessage ?r"
    by blast+
  have e: "Handle (\<lambda>n. 0) (Handler (Some ?s)) (Some ?c) ?r []
       = Inr (None, [\<lparr>Level = 0, Message = ''msg'', Attrs = [Attr ''a'' (KindInt64 1)],
                      Groups = []\<rparr>])"
    unfolding hd[unfolded cc] NewObservedHandler_Handle at' l m
    by (simp add: NewRecord_def rAttrs_def)
  show ?thesis by (intro conjI h1 a h2 b h3 h4 e)
qed

text \<open>
  Where the claim as first stated fails: the carrier \<open>F\<close> has two fields, the first
  holding an empty \<open>[]slog.Attr\<close>. The no-op calls return the context itself, and the
  sink gets one attribute, not \<open>|F| = 2\<close>. And on a record whose array another copy
  has written to, a carrier of one field adds two attributes, \<open>!BUG\<close> and the field.
\<close>

theorem noop_chain_attribute_count:
  "applyCalls [CallWithValues [AnyString '''', AnyInt 1], CallWithoutKeys []]
     (Some (WithValue Background contextKeyFields
              (FieldsData [\<lparr>key = ''g'', val = AnyAttrs []\<rparr>, \<lparr>key = ''a'', val = AnyInt 1\<rparr>])))
   = Inr (Some (WithValue Background contextKeyFields
                  (FieldsData [\<lparr>key = ''g'', val = AnyAttrs []\<rparr>, \<lparr>key = ''a'', val = AnyInt 1\<rparr>])))
   \<and> length (carrier (WithValue Background contextKeyFields
                (FieldsData [\<lparr>key = ''g'', val = AnyAttrs []\<rparr>, \<lparr>key = ''a'', val = AnyInt 1\<rparr>]))) = 2
   \<and> Handle (\<lambda>n. 0) (Handler (Some (NewObservedHandler :: (string, ObservedLog list) sink)))
        (Some (WithValue Background contextKeyFields
                 (FieldsData [\<lparr>key = ''g'', val = AnyAttrs []\<rparr>, \<lparr>key = ''a'', val = AnyInt 1\<rparr>])))
        (NewRecord 0 ''msg'') []
      = Inr (None, [\<lparr>Level = 0, Message = ''msg'', Attrs = [Attr ''a'' (KindInt64 1)],
                      Groups = []\<rparr>])
   \<and> length (rAttrs (addFields (\<lambda>n. 0) (NewRecord 0 ''msg'')
                 (carrier (WithValue Background contextKeyFields
                    (FieldsData [\<lparr>key = ''g'', val = AnyAttrs []\<rparr>, \<lparr>key = ''a'', val = AnyInt 1\<rparr>])))))
      \<noteq> length (carrier (WithValue Background contextKeyFields
                    (FieldsData [\<lparr>key = ''g'', val = AnyAttrs []\<rparr>, \<lparr>key = ''a'', val = AnyInt 1\<rparr>])))
   \<and> length (rAttrs (addFields (\<lambda>n. 0)
                 \<lparr>rLevel = 0, rMessage = ''msg'',
                  rFront = [Attr ''f1'' (KindInt64 1), Attr ''f2'' (KindInt64 2),
                            Attr ''f3'' (KindInt64 3), Attr ''f4'' (KindInt64 4),
                            Attr ''f5'' (KindInt64 5)],
                  rBack = [Attr ''b'' (KindBool True)],
                  rSpare = [Attr ''other'' (KindString ''copy'')]\<rparr>
                 (carrier (WithValue Background contextKeyFields
                    (FieldsData [\<lparr>key = ''a'', val = AnyInt 1\<rparr>])))))
      \<noteq> length (rAttrs
                 \<lparr>rLevel = 0, rMessage = ''msg'',
                  rFront = [Attr ''f1'' (KindInt64 1), Attr ''f2'' (KindInt64 2),
                            Attr ''f3'' (KindInt64 3), Attr ''f4'' (KindInt64 4),
                            Attr ''f5'' (KindInt64 5)],
                  rBack = [Attr ''b'' (KindBool True)],
                  rSpare = [Attr ''other'' (KindString ''copy'')]\<rparr>)
          + length (carrier (WithValue Background contextKeyFields
                      (FieldsData [\<lparr>key = ''a'', val = AnyInt 1\<rparr>])))"
  by (simp add: WithValues_eq WithoutKeys_eq keptFields_def orBackground_def slogString_def
        NewObservedHandler_def AddAttrs_def Let_def nAttrsInline_def isEmptyAttr_def appendAttrs_def growAttrs_def
        countEmptyGroups_def slogAny_def GroupValue_def rAttrs_def NewRecord_def)

section \<open>Properties: scoping the decorator\<close>

text \<open>
  \<open>WithAttrs\<close> and \<open>WithGroup\<close> of the decorator return a decorator again, around what
  the wrapped sink's method of the same name returns. The returned handler therefore
  still appends the fields of the context, under their own keys, before it delegates.
\<close>

lemma WithAttrs_WithGroup_decorate:
  "WithAttrs (Handler (Some s)) attrs = Inr (Decorator (Handler (Some (sinkWithAttrs s attrs))))
   \<and> WithGroup (Handler (Some s)) name = Inr (Decorator (Handler (Some (sinkWithGroup s name))))
   \<and> handlerHandle slack (Decorator (Handler (Some (sinkWithAttrs s attrs)))) (Some c) r w
       = Inr (sinkHandle (sinkWithAttrs s attrs) (Some c) (addFields slack r (carrier c)) w)
   \<and> handlerHandle slack (Decorator (Handler (Some (sinkWithGroup s name)))) (Some c) r w
       = Inr (sinkHandle (sinkWithGroup s name) (Some c) (addFields slack r (carrier c)) w)"
  using Handle_carrier[of slack "sinkWithAttrs s attrs" c r w]
    Handle_carrier[of slack "sinkWithGroup s name" c r w]
  by simp

text \<open>With the observed handler: after \<open>WithGroup\<close> the context's field is still captured.\<close>

lemma WithGroup_observed:
  "(case WithGroup (Handler (Some (NewObservedHandler :: (string, ObservedLog list) sink))) ''g'' of
      Inl e \<Rightarrow> Inl e
    | Inr h \<Rightarrow> handlerHandle (\<lambda>n. 0) h
        (Some (WithValue Background contextKeyFields (FieldsData [\<lparr>key = ''a'', val = AnyInt 1\<rparr>])))
        (NewRecord 0 ''msg'') [])
   = Inr (None, [\<lparr>Level = 0, Message = ''msg'', Attrs = [Attr ''a'' (KindInt64 1)],
                   Groups = [''g'']\<rparr>])"
  by (simp add: NewObservedHandler_def AddAttrs_def Let_def nAttrsInline_def isEmptyAttr_def
        appendAttrs_def growAttrs_def countEmptyGroups_def slogAny_def rAttrs_def NewRecord_def)

text \<open>
  C8. The claim is that \<open>WithAttrs\<close> and \<open>WithGroup\<close> both return a new decorator, so
  that the fields of the context are still injected by the handler returned. The
  decorator above does so. In slogctx/handler.go \<open>WithAttrs\<close> does, but \<open>WithGroup\<close>
  returns what the wrapped sink's \<open>WithGroup\<close> returns, with no decorator around it:
  a record handled through it reaches the sink as it came. With the observed handler and
  a context carrying \<open>a = 1\<close>, the decorator captures \<open>a = 1\<close>, and the handler its
  \<open>WithGroup\<close> returns captures no attribute at all.
\<close>

theorem legacyWithGroup_drops_decorator:
  "legacyWithAttrs (LegacyHandler (Some s)) attrs
     = Inr (LegacyDecorator (LegacyHandler (Some (sinkWithAttrs s attrs))))
   \<and> legacyWithGroup (LegacyHandler (Some s)) name = Inr (Plain (sinkWithGroup s name))
   \<and> handlerHandle slack (Plain (sinkWithGroup s name)) ctx r w
       = Inr (sinkHandle (sinkWithGroup s name) ctx r w)
   \<and> legacyHandle (\<lambda>n. 0)
        (LegacyHandler (Some (NewObservedHandler :: (string, ObservedLog list) sink)))
        (Some (WithValue Background keyFields (SyncMap [(AnyString ''a'', AnyInt 1)])))
        (NewRecord 0 ''msg'') []
       = Inr (None, [\<lparr>Level = 0, Message = ''msg'', Attrs = [Attr ''a'' (KindInt64 1)],
                       Groups = []\<rparr>])
   \<and> (case legacyWithGroup
              (LegacyHandler (Some (NewObservedHandler :: (string, ObservedLog list) sink))) ''g'' of
         Inl e \<Rightarrow> Inl e
       | Inr h \<Rightarrow> handlerHandle (\<lambda>n. 0) h
           (Some (WithValue Background keyFields (SyncMap [(AnyString ''a'', AnyInt 1)])))
           (NewRecord 0 ''msg'') [])
       = Inr (None, [\<lparr>Level = 0, Message = ''msg'', Attrs = [], Groups = [''g'']\<rparr>])"
  by (simp add: NewObservedHandler_def AddAttrs_def Let_def nAttrsInline_def isEmptyAttr_def
        appendAttrs_def growAttrs_def countEmptyGroups_def slogAny_def rAttrs_def NewRecord_def)

section \<open>Properties: the store\<close>

lemma sameBelow_refl: "sameBelow N st st"
  by (simp add: sameBelow_def)

lemma sameBelow_trans: "sameBelow N a b \<Longrightarrow> sameBelow N b c \<Longrightarrow> sameBelow N a c"
  by (simp add: sameBelow_def)

lemma extends_refl: "extends st st"
  by (simp add: extends_def)

lemma take_eq_length: "take (length ys) xs = ys \<Longrightarrow> length ys \<le> length xs"
proof -
  assume "take (length ys) xs = ys"
  then have "length (take (length ys) xs) = length ys" by simp
  then show ?thesis by (simp add: min_def split: if_splits)
qed

lemma extends_length:
  assumes "extends st st'"
  shows "length (arrays st) \<le> length (arrays st')" and "length (objects st) \<le> length (objects st')"
  using assms unfolding extends_def by (auto intro: take_eq_length)

lemma extends_trans:
  assumes "extends a b" and "extends b c"
  shows "extends a c"
proof -
  note la = extends_length(1)[OF assms(1)] and lo = extends_length(2)[OF assms(1)]
  have "take (length (arrays a)) (arrays c) = take (length (arrays a)) (take (length (arrays b)) (arrays c))"
    using la by (simp add: min_def)
  moreover have "take (length (objects a)) (objects c) = take (length (objects a)) (take (length (objects b)) (objects c))"
    using lo by (simp add: min_def)
  ultimately show ?thesis using assms unfolding extends_def by simp
qed

lemma sameBelow_extends:
  "sameBelow (length (arrays st)) st st' \<Longrightarrow> extends st st'"
  by (simp add: sameBelow_def extends_def)

lemma extends_array:
  assumes "extends st st'" and "b < length (arrays st)"
  shows "arrays st' ! b = arrays st ! b"
proof -
  have "take (length (arrays st)) (arrays st') ! b = arrays st' ! b" using assms(2) by simp
  then show ?thesis using assms(1) unfolding extends_def by simp
qed

lemma extends_object:
  assumes "extends st st'" and "p < length (objects st)"
  shows "objects st' ! p = objects st ! p"
proof -
  have "take (length (objects st)) (objects st') ! p = objects st' ! p" using assms(2) by simp
  then show ?thesis using assms(1) unfolding extends_def by simp
qed

lemma wfSlice_extends:
  assumes "extends st st'" and "wfSlice st s"
  shows "wfSlice st' s"
  using assms extends_length(1)[OF assms(1)] extends_array[OF assms(1)]
  by (auto simp: wfSlice_def)

lemma sliceElems_extends:
  assumes "extends st st'" and "wfSlice st s"
  shows "sliceElems st' s = sliceElems st s"
proof (cases "len s = 0")
  case True
  then show ?thesis by (simp add: sliceElems_def)
next
  case False
  then have "base s < length (arrays st)" using assms(2) by (auto simp: wfSlice_def)
  then show ?thesis using extends_array[OF assms(1)] by (simp add: sliceElems_def)
qed

lemma sameBelow_array:
  assumes "sameBelow N st st'" and "b < N"
  shows "arrays st' ! b = arrays st ! b"
proof -
  have "take N (arrays st') ! b = take N (arrays st) ! b" using assms unfolding sameBelow_def by simp
  then show ?thesis using assms(2) by simp
qed

subsection \<open>make, append and clone\<close>

lemma makeSlice_props:
  assumes "makeSlice c st = (st', s)" and "N \<le> length (arrays st)"
  shows "sameBelow N st st'" and "freshSlice N st' s" and "len s = 0" and "cap s = c"
    and "sliceElems st' s = []"
  using assms by (auto simp: makeSlice_def sameBelow_def freshSlice_def wfSlice_def sliceElems_def nth_append)

lemma appendSlice_props:
  assumes "appendSlice slack s xs st = (st', s')" and "freshSlice N st s" and "N \<le> length (arrays st)"
  shows "sameBelow N st st'" and "freshSlice N st' s'" and "sliceElems st' s' = sliceElems st s @ xs"
    and "len s' = len s + length xs"
proof -
  let ?need = "len s + length xs"
  consider (none) "xs = []" | (inplace) "xs \<noteq> []" "?need \<le> cap s" | (grow) "xs \<noteq> []" "\<not> ?need \<le> cap s"
    by blast
  then have "sameBelow N st st' \<and> freshSlice N st' s' \<and> sliceElems st' s' = sliceElems st s @ xs
      \<and> len s' = len s + length xs"
  proof cases
    case none
    then show ?thesis using assms by (auto simp: appendSlice_def sameBelow_def)
  next
    case inplace
    let ?a = "arrays st ! base s"
    from inplace have c0: "cap s \<noteq> 0" by (cases xs) auto
    with assms(2) have b: "base s < length (arrays st)" "cap s \<le> length ?a" "N \<le> base s" "len s \<le> cap s"
      by (auto simp: freshSlice_def wfSlice_def)
    from assms(1) inplace have st': "st' = st\<lparr>arrays := (arrays st)[base s := take (len s) ?a @ xs @ drop ?need ?a]\<rparr>"
      and s': "s' = s\<lparr>len := ?need\<rparr>"
      by (auto simp: appendSlice_def Let_def)
    have len_new: "length (take (len s) ?a @ xs @ drop ?need ?a) = length ?a"
      using b inplace by auto
    have 1: "sameBelow N st st'"
      using b by (simp add: sameBelow_def st')
    have 2: "freshSlice N st' s'"
      using b inplace len_new by (simp add: freshSlice_def wfSlice_def st' s')
    have 3: "sliceElems st' s' = sliceElems st s @ xs"
      using b inplace by (auto simp: sliceElems_def st' s')
    show ?thesis using 1 2 3 by (simp add: s')
  next
    case grow
    from assms(1) grow have st': "st' = st\<lparr>arrays := arrays st @ [sliceElems st s @ xs @ replicate (slack ?need) zeroField]\<rparr>"
      and s': "s' = \<lparr>base = length (arrays st), len = ?need, cap = ?need + slack ?need\<rparr>"
      by (auto simp: appendSlice_def Let_def)
    have le: "length (sliceElems st s) = len s"
      using assms(2) by (auto simp: sliceElems_def freshSlice_def wfSlice_def)
    have 1: "sameBelow N st st'" using assms(3) by (simp add: sameBelow_def st')
    have 2: "freshSlice N st' s'"
      using assms(3) le by (simp add: freshSlice_def wfSlice_def st' s')
    have 3: "sliceElems st' s' = sliceElems st s @ xs"
    proof -
      have "sliceElems st' s' = take ?need (sliceElems st s @ xs @ replicate (slack ?need) zeroField)"
        using grow unfolding sliceElems_def[of st' s'] by (cases xs) (simp_all add: st' s')
      also have "\<dots> = sliceElems st s @ xs" using le by simp
      finally show ?thesis .
    qed
    show ?thesis using 1 2 3 by (simp add: s')
  qed
  then show "sameBelow N st st'" and "freshSlice N st' s'" and "sliceElems st' s' = sliceElems st s @ xs"
    and "len s' = len s + length xs" by auto
qed

lemma sliceElems_length: "wfSlice st s \<Longrightarrow> length (sliceElems st s) = len s"
  by (auto simp: sliceElems_def wfSlice_def)

lemma slicesClone_props:
  assumes "slicesClone slack s st = (st', s')" and "wfSlice st s" and "N \<le> length (arrays st)"
  shows "sameBelow N st st'" and "freshSlice N st' s'" and "sliceElems st' s' = sliceElems st s"
proof -
  let ?z = "s\<lparr>len := 0, cap := 0\<rparr>"
  have f: "freshSlice N st ?z" by (simp add: freshSlice_def wfSlice_def)
  have a: "appendSlice slack ?z (sliceElems st s) st = (st', s')"
    using assms(1) by (simp add: slicesClone_def)
  have z: "sliceElems st ?z = []" by (simp add: sliceElems_def)
  show "sameBelow N st st'" by (rule appendSlice_props(1)[OF a f assms(3)])
  show "freshSlice N st' s'" by (rule appendSlice_props(2)[OF a f assms(3)])
  show "sliceElems st' s' = sliceElems st s"
    using appendSlice_props(3)[OF a f assms(3)] z by simp
qed

lemma sameBelow_length: "sameBelow N st st' \<Longrightarrow> N \<le> length (arrays st) \<Longrightarrow> N \<le> length (arrays st')"
  by (simp add: sameBelow_def)

lemma collectFields_st_props:
  "n \<le> length args \<Longrightarrow> freshSlice N st nf \<Longrightarrow> N \<le> length (arrays st) \<Longrightarrow>
   sameBelow N st (fst (collectFields_st slack args n i nf st))
   \<and> freshSlice N (fst (collectFields_st slack args n i nf st)) (snd (collectFields_st slack args n i nf st))
   \<and> sliceElems (fst (collectFields_st slack args n i nf st)) (snd (collectFields_st slack args n i nf st))
       = sliceElems st nf @ keptFields (drop i (take n args))"
proof (induction slack args n i nf st rule: collectFields_st.induct)
  case (1 slack args n i newFields st)
  show ?case
  proof (cases "i + 1 < n")
    case False
    then have "pairsOf (drop i (take n args)) = []"
      using pairsOf_drop_short[of i "take n args"] "1.prems" by simp
    with False "1.prems" show ?thesis
      by (simp add: collectFields_st.simps[of slack args n i] keptFields_no_pairs sameBelow_refl)
  next
    case True
    note d = drop_take_two[OF True "1.prems"(1)]
    show ?thesis
    proof (cases "validKey (args ! i)")
      case False
      then have skip: "collectFields_st slack args n i newFields st
          = collectFields_st slack args n (i + 2) newFields st"
        using True by (cases "args ! i") (simp_all add: collectFields_st.simps[of slack args n i])
      have k: "keptFields (drop i (take n args)) = keptFields (drop (i + 2) (take n args))"
        using False by (simp add: d keptFields_Cons2)
      have "sameBelow N st (fst (collectFields_st slack args n (i + 2) newFields st))
        \<and> freshSlice N (fst (collectFields_st slack args n (i + 2) newFields st))
            (snd (collectFields_st slack args n (i + 2) newFields st))
        \<and> sliceElems (fst (collectFields_st slack args n (i + 2) newFields st))
            (snd (collectFields_st slack args n (i + 2) newFields st))
           = sliceElems st newFields @ keptFields (drop (i + 2) (take n args))"
        using False True "1.IH" "1.prems" by (cases "args ! i") simp_all
      then show ?thesis by (simp add: skip k)
    next
      case valid: True
      then obtain k where ak: "args ! i = AnyString k" and kne: "k \<noteq> []"
        by (cases "args ! i") auto
      let ?f = "\<lparr>key = k, val = args ! (i + 1)\<rparr>"
      obtain st1 nf1 where ap: "appendSlice slack newFields [?f] st = (st1, nf1)"
        by (cases "appendSlice slack newFields [?f] st")
      note p = appendSlice_props[OF ap "1.prems"(2) "1.prems"(3)]
      have step: "collectFields_st slack args n i newFields st
          = collectFields_st slack args n (i + 2) nf1 st1"
        using True ak kne ap by (simp add: collectFields_st.simps[of slack args n i])
      have kf: "keptFields (drop i (take n args)) = ?f # keptFields (drop (i + 2) (take n args))"
        using ak kne by (simp add: d keptFields_Cons2)
      have N1: "N \<le> length (arrays st1)" using sameBelow_length[OF p(1) "1.prems"(3)] .
      have ih: "sameBelow N st1 (fst (collectFields_st slack args n (i + 2) nf1 st1))
        \<and> freshSlice N (fst (collectFields_st slack args n (i + 2) nf1 st1))
            (snd (collectFields_st slack args n (i + 2) nf1 st1))
        \<and> sliceElems (fst (collectFields_st slack args n (i + 2) nf1 st1))
            (snd (collectFields_st slack args n (i + 2) nf1 st1))
           = sliceElems st1 nf1 @ keptFields (drop (i + 2) (take n args))"
        using "1.IH" True ak kne "1.prems"(1) p(2) N1 ap by simp
      show ?thesis
        using ih p(1) p(3) sameBelow_trans[OF p(1)] by (simp add: step kf)
    qed
  qed
qed

lemma collectUnique_st_props:
  "n \<le> length args \<Longrightarrow> freshSlice N st nf \<Longrightarrow> N \<le> length (arrays st) \<Longrightarrow>
   sameBelow N st (fst (collectUnique_st slack args n i nf S st))
   \<and> freshSlice N (fst (collectUnique_st slack args n i nf S st))
        (fst (snd (collectUnique_st slack args n i nf S st)))
   \<and> sliceElems (fst (collectUnique_st slack args n i nf S st))
        (fst (snd (collectUnique_st slack args n i nf S st)))
       = sliceElems st nf @ keptFields (drop i (take n args))
   \<and> snd (snd (collectUnique_st slack args n i nf S st))
       = S \<union> key ` set (keptFields (drop i (take n args)))"
proof (induction slack args n i nf S st rule: collectUnique_st.induct)
  case (1 slack args n i newFields replaceSet st)
  show ?case
  proof (cases "i + 1 < n")
    case False
    then have "pairsOf (drop i (take n args)) = []"
      using pairsOf_drop_short[of i "take n args"] "1.prems" by simp
    with False "1.prems" show ?thesis
      by (simp add: collectUnique_st.simps[of slack args n i] keptFields_no_pairs sameBelow_refl)
  next
    case True
    note d = drop_take_two[OF True "1.prems"(1)]
    show ?thesis
    proof (cases "validKey (args ! i)")
      case False
      then have skip: "collectUnique_st slack args n i newFields replaceSet st
          = collectUnique_st slack args n (i + 2) newFields replaceSet st"
        using True by (cases "args ! i") (simp_all add: collectUnique_st.simps[of slack args n i])
      have k: "keptFields (drop i (take n args)) = keptFields (drop (i + 2) (take n args))"
        using False by (simp add: d keptFields_Cons2)
      have "sameBelow N st (fst (collectUnique_st slack args n (i + 2) newFields replaceSet st))
        \<and> freshSlice N (fst (collectUnique_st slack args n (i + 2) newFields replaceSet st))
            (fst (snd (collectUnique_st slack args n (i + 2) newFields replaceSet st)))
        \<and> sliceElems (fst (collectUnique_st slack args n (i + 2) newFields replaceSet st))
            (fst (snd (collectUnique_st slack args n (i + 2) newFields replaceSet st)))
           = sliceElems st newFields @ keptFields (drop (i + 2) (take n args))
        \<and> snd (snd (collectUnique_st slack args n (i + 2) newFields replaceSet st))
           = replaceSet \<union> key ` set (keptFields (drop (i + 2) (take n args)))"
        using False True "1.IH" "1.prems" by (cases "args ! i") simp_all
      then show ?thesis by (simp add: skip k)
    next
      case valid: True
      then obtain k where ak: "args ! i = AnyString k" and kne: "k \<noteq> []"
        by (cases "args ! i") auto
      let ?f = "\<lparr>key = k, val = args ! (i + 1)\<rparr>"
      obtain st1 nf1 where ap: "appendSlice slack newFields [?f] st = (st1, nf1)"
        by (cases "appendSlice slack newFields [?f] st")
      note p = appendSlice_props[OF ap "1.prems"(2) "1.prems"(3)]
      have step: "collectUnique_st slack args n i newFields replaceSet st
          = collectUnique_st slack args n (i + 2) nf1 (insert k replaceSet) st1"
        using True ak kne ap by (simp add: collectUnique_st.simps[of slack args n i])
      have kf: "keptFields (drop i (take n args)) = ?f # keptFields (drop (i + 2) (take n args))"
        using ak kne by (simp add: d keptFields_Cons2)
      have N1: "N \<le> length (arrays st1)" using sameBelow_length[OF p(1) "1.prems"(3)] .
      have ih: "sameBelow N st1 (fst (collectUnique_st slack args n (i + 2) nf1 (insert k replaceSet) st1))
        \<and> freshSlice N (fst (collectUnique_st slack args n (i + 2) nf1 (insert k replaceSet) st1))
            (fst (snd (collectUnique_st slack args n (i + 2) nf1 (insert k replaceSet) st1)))
        \<and> sliceElems (fst (collectUnique_st slack args n (i + 2) nf1 (insert k replaceSet) st1))
            (fst (snd (collectUnique_st slack args n (i + 2) nf1 (insert k replaceSet) st1)))
           = sliceElems st1 nf1 @ keptFields (drop (i + 2) (take n args))
        \<and> snd (snd (collectUnique_st slack args n (i + 2) nf1 (insert k replaceSet) st1))
           = insert k replaceSet \<union> key ` set (keptFields (drop (i + 2) (take n args)))"
        using "1.IH" True ak kne "1.prems"(1) p(2) N1 ap by simp
      show ?thesis
        using ih p(1) p(3) sameBelow_trans[OF p(1)] by (simp add: step kf)
    qed
  qed
qed

lemma oldSlice_sameBelow:
  assumes "oldSlice N st s" and "sameBelow N st st'"
  shows "oldSlice N st' s" and "sliceElems st' s = sliceElems st s"
proof -
  show "sliceElems st' s = sliceElems st s"
    using assms sameBelow_array[OF assms(2)] by (auto simp: oldSlice_def sliceElems_def)
  show "oldSlice N st' s"
    using assms sameBelow_array[OF assms(2)] by (auto simp: oldSlice_def sameBelow_def)
qed

lemma wfSlice_oldSlice: "wfSlice st s \<Longrightarrow> oldSlice (length (arrays st)) st s"
  by (auto simp: wfSlice_def oldSlice_def)

lemma oldSlice_nil: "oldSlice N st nilSlice"
  by (simp add: oldSlice_def nilSlice_def)

lemma oldSlice_drop:
  assumes "oldSlice N st s" and "i < len s"
  shows "drop i (sliceElems st s) = arrays st ! base s ! i # drop (i + 1) (sliceElems st s)"
proof -
  have l: "length (sliceElems st s) = len s"
    using assms by (auto simp: oldSlice_def sliceElems_def)
  have "sliceElems st s ! i = arrays st ! base s ! i"
    using assms by (auto simp: sliceElems_def)
  moreover have "drop i (sliceElems st s) = sliceElems st s ! i # drop (Suc i) (sliceElems st s)"
    using l assms(2) by (simp add: Cons_nth_drop_Suc)
  ultimately show ?thesis by simp
qed

lemma rangeKeep_st_props:
  "oldSlice N st existing \<Longrightarrow> freshSlice N st result \<Longrightarrow> N \<le> length (arrays st) \<Longrightarrow>
   sameBelow N st (fst (rangeKeep_st slack keySet existing i result st))
   \<and> freshSlice N (fst (rangeKeep_st slack keySet existing i result st))
        (snd (rangeKeep_st slack keySet existing i result st))
   \<and> sliceElems (fst (rangeKeep_st slack keySet existing i result st))
        (snd (rangeKeep_st slack keySet existing i result st))
       = sliceElems st result @ filter (\<lambda>f. key f \<notin> keySet) (drop i (sliceElems st existing))"
proof (induction slack keySet existing i result st rule: rangeKeep_st.induct)
  case (1 slack keySet existing i result st)
  show ?case
  proof (cases "i < len existing")
    case False
    have "length (sliceElems st existing) \<le> len existing"
      by (simp add: sliceElems_def)
    with False have "drop i (sliceElems st existing) = []" by simp
    with False "1.prems" show ?thesis
      by (simp add: rangeKeep_st.simps[of slack keySet existing i] sameBelow_refl)
  next
    case True
    let ?f = "arrays st ! base existing ! i"
    note d = oldSlice_drop[OF "1.prems"(1) True]
    show ?thesis
    proof (cases "key ?f \<in> keySet")
      case skip: True
      have step: "rangeKeep_st slack keySet existing i result st
          = rangeKeep_st slack keySet existing (i + 1) result st"
        using True skip by (simp add: rangeKeep_st.simps[of slack keySet existing i])
      have "sameBelow N st (fst (rangeKeep_st slack keySet existing (i + 1) result st))
        \<and> freshSlice N (fst (rangeKeep_st slack keySet existing (i + 1) result st))
            (snd (rangeKeep_st slack keySet existing (i + 1) result st))
        \<and> sliceElems (fst (rangeKeep_st slack keySet existing (i + 1) result st))
            (snd (rangeKeep_st slack keySet existing (i + 1) result st))
           = sliceElems st result @ filter (\<lambda>f. key f \<notin> keySet) (drop (i + 1) (sliceElems st existing))"
        using "1.IH"(1) True skip "1.prems" by simp
      then show ?thesis using skip by (simp add: step d)
    next
      case keep: False
      obtain st1 r1 where ap: "appendSlice slack result [?f] st = (st1, r1)"
        by (cases "appendSlice slack result [?f] st")
      note p = appendSlice_props[OF ap "1.prems"(2) "1.prems"(3)]
      have step: "rangeKeep_st slack keySet existing i result st
          = rangeKeep_st slack keySet existing (i + 1) r1 st1"
        using True keep ap by (simp add: rangeKeep_st.simps[of slack keySet existing i])
      note o = oldSlice_sameBelow[OF "1.prems"(1) p(1)]
      have N1: "N \<le> length (arrays st1)" using sameBelow_length[OF p(1) "1.prems"(3)] .
      have ih: "sameBelow N st1 (fst (rangeKeep_st slack keySet existing (i + 1) r1 st1))
        \<and> freshSlice N (fst (rangeKeep_st slack keySet existing (i + 1) r1 st1))
            (snd (rangeKeep_st slack keySet existing (i + 1) r1 st1))
        \<and> sliceElems (fst (rangeKeep_st slack keySet existing (i + 1) r1 st1))
            (snd (rangeKeep_st slack keySet existing (i + 1) r1 st1))
           = sliceElems st1 r1 @ filter (\<lambda>f. key f \<notin> keySet) (drop (i + 1) (sliceElems st1 existing))"
        using "1.IH"(2) True keep o(1) p(2) N1 ap by simp
      show ?thesis
        using ih p(1) p(3) o(2) keep sameBelow_trans[OF p(1)] by (simp add: step d)
    qed
  qed
qed

lemma absCtx_value: "ctxValue (absCtx st c) k = absVal st (sctxValue c k)"
  by (induction c) auto

lemma as_fieldsData_absVal:
  "as_fieldsData (absVal st v) = map_option (\<lambda>p. sliceElems st (objects st ! p)) (as_pointer v)"
  by (cases v) auto

lemma carrier_absCtx:
  "carrier (absCtx st c) =
     (case as_pointer (sctxValue c contextKeyFields) of
        None \<Rightarrow> []
      | Some p \<Rightarrow> sliceElems st (objects st ! p))"
  by (simp add: carrier_def absCtx_value as_fieldsData_absVal split: option.splits)

lemma wfCtx_pointer:
  "wfCtx st c \<Longrightarrow> as_pointer (sctxValue c k) = Some q \<Longrightarrow> q < length (objects st)"
  by (induction c) (auto split: if_splits sval.splits)

lemma wfStore_object: "wfStore st \<Longrightarrow> q < length (objects st) \<Longrightarrow> wfSlice st (objects st ! q)"
  by (simp add: wfStore_def list_all_length)

lemma wfCtx_extends:
  assumes "extends st st'" and "wfCtx st c"
  shows "wfCtx st' c"
  using assms(2) extends_length(2)[OF assms(1)]
  by (induction c) (auto split: sval.splits)

lemma absVal_extends:
  assumes "extends st st'" and "wfStore st"
    and "case v of SFieldsData p \<Rightarrow> p < length (objects st) | _ \<Rightarrow> True"
  shows "absVal st' v = absVal st v"
proof (cases v)
  case (SFieldsData p)
  with assms(3) have p: "p < length (objects st)" by simp
  have "objects st' ! p = objects st ! p" by (rule extends_object[OF assms(1) p])
  moreover have "sliceElems st' (objects st ! p) = sliceElems st (objects st ! p)"
    by (rule sliceElems_extends[OF assms(1) wfStore_object[OF assms(2) p]])
  ultimately show ?thesis using SFieldsData by simp
qed simp_all

lemma absCtx_extends:
  assumes "extends st st'" and "wfStore st" and "wfCtx st c"
  shows "absCtx st' c = absCtx st c"
  using assms(3)
proof (induction c)
  case SBackground
  show ?case by simp
next
  case (SWithValue c k v)
  then have "absVal st' v = absVal st v"
    using absVal_extends[OF assms(1) assms(2), of v] by simp
  with SWithValue show ?case by simp
qed

lemma wfStore_sameBelow:
  assumes "wfStore st0" and "sameBelow (length (arrays st0)) st0 st"
  shows "wfStore st" and "extends st0 st"
proof -
  show e: "extends st0 st" using assms(2) by (simp add: sameBelow_def extends_def)
  have o: "objects st = objects st0" using assms(2) by (simp add: sameBelow_def)
  show "wfStore st"
    using assms(1) wfSlice_extends[OF e] unfolding wfStore_def o list_all_iff by blast
qed

text \<open>Leaving the context as it is, in a store the call has only added to.\<close>

lemma unchanged_props:
  assumes "wfStore st0" and "wfCtx st0 c" and "sameBelow (length (arrays st0)) st0 st"
  shows "extends st0 st" and "wfStore st" and "wfCtx st c" and "absCtx st c = absCtx st0 c"
proof -
  note w = wfStore_sameBelow[OF assms(1) assms(3)]
  show "extends st0 st" by (rule w(2))
  show "wfStore st" by (rule w(1))
  show "wfCtx st c" by (rule wfCtx_extends[OF w(2) assms(2)])
  show "absCtx st c = absCtx st0 c" by (rule absCtx_extends[OF w(2) assms(1) assms(2)])
qed

text \<open>Publishing a slice the call has built: a new struct, and a context derived with its address.\<close>

lemma publish_props:
  assumes "wfStore st0" and "wfCtx st0 c" and "sameBelow (length (arrays st0)) st0 st"
    and "wfSlice st s" and "newFieldsData s st = (st', p)"
  shows "extends st0 st'" and "wfStore st'"
    and "wfCtx st' (SWithValue c k (SFieldsData p))"
    and "absCtx st' (SWithValue c k (SFieldsData p))
          = WithValue (absCtx st0 c) k (FieldsData (sliceElems st s))"
proof -
  note u = unchanged_props[OF assms(1) assms(2) assms(3)]
  from assms(5) have st': "st' = st\<lparr>objects := objects st @ [s]\<rparr>" and p: "p = length (objects st)"
    by (auto simp: newFieldsData_def)
  have e: "extends st st'" by (simp add: extends_def st')
  show e0: "extends st0 st'" by (rule extends_trans[OF u(1) e])
  have ws: "wfSlice st' s" by (rule wfSlice_extends[OF e assms(4)])
  have "list_all (wfSlice st') (objects st)"
    using u(2) wfSlice_extends[OF e] unfolding wfStore_def list_all_iff by blast
  then show "wfStore st'" using ws by (simp add: wfStore_def st')
  show "wfCtx st' (SWithValue c k (SFieldsData p))"
    using wfCtx_extends[OF e0 assms(2)] by (simp add: p st')
  have "sliceElems st' (objects st' ! p) = sliceElems st s"
    by (simp add: st' p sliceElems_def)
  then show "absCtx st' (SWithValue c k (SFieldsData p))
          = WithValue (absCtx st0 c) k (FieldsData (sliceElems st s))"
    using absCtx_extends[OF e0 assms(1) assms(2)] by simp
qed

lemma slicesClone_extends:
  assumes "slicesClone slack s st = (st', s')"
  shows "extends st st'"
  using assms by (auto simp: slicesClone_def appendSlice_def Let_def extends_def split: if_splits)

lemma freshSlice_wf: "freshSlice N st s \<Longrightarrow> wfSlice st s"
  by (simp add: freshSlice_def)

lemma orSBackground_wf: "wfContext st ctx0 \<Longrightarrow> wfCtx st (orSBackground ctx0)"
  by (cases ctx0) (simp_all add: wfContext_def orSBackground_def)

lemma orSBackground_abs:
  "absCtx st (orSBackground ctx0) = orBackground (map_option (absCtx st) ctx0)"
  by (cases ctx0) (simp_all add: orSBackground_def orBackground_def)

text \<open>The first part of \<open>WithValues\<close> and \<open>WithUniqueValues\<close>: \<open>newFields\<close>.\<close>

lemma newFields_props:
  assumes "makeSlice c st = (st1, nf0)"
    and "collectFields_st slack args (pairedLen args) 0 nf0 st1 = (st2, newFields)"
  shows "sameBelow (length (arrays st)) st st2"
    and "freshSlice (length (arrays st)) st2 newFields"
    and "sliceElems st2 newFields = keptFields args"
    and "len newFields = length (keptFields args)"
proof -
  let ?N = "length (arrays st)"
  note m = makeSlice_props[OF assms(1) order_refl]
  have N1: "?N \<le> length (arrays st1)" using sameBelow_length[OF m(1)] by simp
  note c = collectFields_st_props[OF pairedLen_le m(2) N1, where slack = slack and i = 0 and args = args]
  show 1: "sameBelow ?N st st2" using sameBelow_trans[OF m(1)] c by (simp add: assms(2))
  show 2: "freshSlice ?N st2 newFields" using c by (simp add: assms(2))
  show 3: "sliceElems st2 newFields = keptFields args"
    using c m(5) by (simp add: assms(2) keptFields_take)
  show "len newFields = length (keptFields args)"
    using sliceElems_length[OF freshSlice_wf[OF 2]] 3 by simp
qed

lemma WithValues_st_props:
  assumes wf: "wfStore st" and wc: "wfContext st ctx0"
    and r: "WithValues_st slack ctx0 args st = (st', ctx')"
  shows "extends st st' \<and> wfStore st' \<and> wfContext st' ctx'
    \<and> map_option (absCtx st') ctx' = WithValues (map_option (absCtx st) ctx0) args"
proof -
  let ?N = "length (arrays st)"
  let ?ctx = "orSBackground ctx0"
  let ?n = "pairedLen args"
  note wctx = orSBackground_wf[OF wc]
  note actx = orSBackground_abs[of st ctx0]
  show ?thesis
  proof (cases "?n = 0")
    case True
    then have "st' = st" "ctx' = Some ?ctx" using r by (simp_all add: WithValues_st_def)
    then show ?thesis
      using wf wctx actx True
      by (simp add: extends_refl wfContext_def WithValues_eq pairedLen_0_kept)
  next
    case n0: False
    obtain st1 nf0 where mk: "makeSlice (?n div 2) st = (st1, nf0)"
      by (cases "makeSlice (?n div 2) st")
    obtain st2 newFields where cf: "collectFields_st slack args ?n 0 nf0 st1 = (st2, newFields)"
      by (cases "collectFields_st slack args ?n 0 nf0 st1")
    note nf = newFields_props[OF mk cf]
    show ?thesis
    proof (cases "keptFields args = []")
      case True
      then have "st' = st2" "ctx' = Some ?ctx"
        using r n0 mk cf nf(4) by (simp_all add: WithValues_st_def)
      then show ?thesis
        using unchanged_props[OF wf wctx nf(1)] actx True
        by (simp add: wfContext_def WithValues_eq)
    next
      case kept: False
      then have ln: "len newFields \<noteq> 0" using nf(4) by simp
      show ?thesis
      proof (cases "carrier (absCtx st ?ctx) = []")
        case True
        obtain st3 p where nd: "newFieldsData newFields st2 = (st3, p)"
          by (cases "newFieldsData newFields st2")
        have res: "st' = st3 \<and> ctx' = Some (SWithValue ?ctx contextKeyFields (SFieldsData p))"
        proof (cases "as_pointer (sctxValue ?ctx contextKeyFields)")
          case None
          then show ?thesis using r n0 mk cf ln nd by (simp add: WithValues_st_def)
        next
          case (Some q)
          note q = wfCtx_pointer[OF wctx Some]
          have o2: "objects st2 = objects st" using nf(1) by (simp add: sameBelow_def)
          have "sliceElems st (objects st ! q) = []" using True Some by (simp add: carrier_absCtx)
          then have "len (objects st ! q) = 0"
            using sliceElems_length[OF wfStore_object[OF wf q]] by simp
          then show ?thesis using r n0 mk cf ln nd Some o2 by (simp add: WithValues_st_def)
        qed
        note pb = publish_props[OF wf wctx nf(1) freshSlice_wf[OF nf(2)] nd]
        show ?thesis
          using pb res actx kept True nf(3)
          by (simp add: wfContext_def WithValues_eq)
      next
        case False
        then obtain q where Some: "as_pointer (sctxValue ?ctx contextKeyFields) = Some q"
          and car: "carrier (absCtx st ?ctx) = sliceElems st (objects st ! q)"
          by (auto simp: carrier_absCtx split: option.splits)
        note q = wfCtx_pointer[OF wctx Some]
        note wq = wfStore_object[OF wf q]
        have o2: "objects st2 = objects st" using nf(1) by (simp add: sameBelow_def)
        note u2 = unchanged_props[OF wf wctx nf(1)]
        have lq: "len (objects st ! q) \<noteq> 0"
          using False car by (auto simp: sliceElems_def split: if_splits)
        let ?ps = "objects st ! q"
        have wq2: "wfSlice st2 ?ps" by (rule wfSlice_extends[OF u2(1) wq])
        have N2: "?N \<le> length (arrays st2)" using sameBelow_length[OF nf(1)] by simp
        obtain st3 clone where cl: "slicesClone slack ?ps st2 = (st3, clone)"
          by (cases "slicesClone slack ?ps st2")
        note c = slicesClone_props[OF cl wq2 N2]
        note ce = slicesClone_extends[OF cl]
        have N3: "?N \<le> length (arrays st3)" using sameBelow_length[OF c(1) N2] .
        have e3: "sliceElems st3 newFields = keptFields args"
          using sliceElems_extends[OF ce freshSlice_wf[OF nf(2)]] nf(3) by simp
        obtain st4 combined where ap: "appendSlice slack clone (keptFields args) st3 = (st4, combined)"
          by (cases "appendSlice slack clone (keptFields args) st3")
        note a = appendSlice_props[OF ap c(2) N3]
        obtain st5 p where nd: "newFieldsData combined st4 = (st5, p)"
          by (cases "newFieldsData combined st4")
        have res: "st' = st5 \<and> ctx' = Some (SWithValue ?ctx contextKeyFields (SFieldsData p))"
          using r n0 mk cf ln Some o2 lq cl e3 ap nd by (simp add: WithValues_st_def)
        have s4: "sameBelow ?N st st4"
          by (rule sameBelow_trans[OF sameBelow_trans[OF nf(1) c(1)] a(1)])
        note pb = publish_props[OF wf wctx s4 freshSlice_wf[OF a(2)] nd]
        have elems: "sliceElems st4 combined = carrier (absCtx st ?ctx) @ keptFields args"
          using a(3) c(3) sliceElems_extends[OF u2(1) wq] car by simp
        show ?thesis
          using pb res actx kept elems
          by (simp add: wfContext_def WithValues_eq)
      qed
    qed
  qed
qed

lemma sameBelow_mono:
  assumes "M \<le> N" and "sameBelow N a b"
  shows "sameBelow M a b"
proof -
  have "take M (arrays b) = take M (take N (arrays b))" using assms(1) by (simp add: min_def)
  also have "\<dots> = take M (take N (arrays a))" using assms(2) by (simp add: sameBelow_def)
  also have "\<dots> = take M (arrays a)" using assms(1) by (simp add: min_def)
  finally show ?thesis using assms(2) by (simp add: sameBelow_def)
qed

lemma freshSlice_mono: "M \<le> N \<Longrightarrow> freshSlice N st s \<Longrightarrow> freshSlice M st s"
  by (auto simp: freshSlice_def)

lemma oldSlice_mono: "N \<le> M \<Longrightarrow> oldSlice N st s \<Longrightarrow> oldSlice M st s"
  by (auto simp: oldSlice_def)

lemma sameBelow_elems:
  assumes "sameBelow (length (arrays a)) a b" and "wfSlice a s"
  shows "sliceElems b s = sliceElems a s"
proof (cases "len s = 0")
  case True
  then show ?thesis by (simp add: sliceElems_def)
next
  case False
  then have "base s < length (arrays a)" using assms(2) by (auto simp: wfSlice_def)
  then show ?thesis using sameBelow_array[OF assms(1)] by (simp add: sliceElems_def)
qed

text \<open>The first part of \<open>WithUniqueValues\<close>: \<open>newFields\<close> and \<open>replaceSet\<close>.\<close>

lemma newFieldsUnique_props:
  assumes "makeSlice c st = (st1, nf0)"
    and "collectUnique_st slack args (pairedLen args) 0 nf0 {} st1 = (st2, newFields, replaceSet)"
  shows "sameBelow (length (arrays st)) st st2"
    and "freshSlice (length (arrays st)) st2 newFields"
    and "sliceElems st2 newFields = keptFields args"
    and "len newFields = length (keptFields args)"
    and "replaceSet = key ` set (keptFields args)"
proof -
  let ?N = "length (arrays st)"
  note m = makeSlice_props[OF assms(1) order_refl]
  have N1: "?N \<le> length (arrays st1)" using sameBelow_length[OF m(1)] by simp
  note c = collectUnique_st_props[OF pairedLen_le m(2) N1,
      where slack = slack and i = 0 and args = args and S = "{}"]
  show 1: "sameBelow ?N st st2" using sameBelow_trans[OF m(1)] c by (simp add: assms(2))
  show 2: "freshSlice ?N st2 newFields" using c by (simp add: assms(2))
  show 3: "sliceElems st2 newFields = keptFields args"
    using c m(5) by (simp add: assms(2) keptFields_take)
  show "len newFields = length (keptFields args)"
    using sliceElems_length[OF freshSlice_wf[OF 2]] 3 by simp
  show "replaceSet = key ` set (keptFields args)"
    using c by (simp add: assms(2) keptFields_take)
qed

text \<open>The existing slice a mutator ranges over: that of the struct the context points to.\<close>

lemma existing_props:
  assumes wf: "wfStore st" and wc: "wfCtx st c" and sb: "sameBelow (length (arrays st)) st st2"
    and ex: "existing = (case as_pointer (sctxValue c contextKeyFields) of
                 None \<Rightarrow> nilSlice
               | Some q \<Rightarrow> if len (objects st2 ! q) > 0 then objects st2 ! q else nilSlice)"
  shows "oldSlice (length (arrays st)) st2 existing"
    and "sliceElems st2 existing = carrier (absCtx st c)"
proof -
  have o2: "objects st2 = objects st" using sb by (simp add: sameBelow_def)
  have "oldSlice (length (arrays st)) st2 existing \<and> sliceElems st2 existing = carrier (absCtx st c)"
  proof (cases "as_pointer (sctxValue c contextKeyFields)")
    case None
    then have e: "existing = nilSlice" using ex by simp
    have "sliceElems st2 nilSlice = []" by (simp add: sliceElems_def nilSlice_def)
    then show ?thesis using None
      by (simp add: e oldSlice_nil carrier_absCtx)
  next
    case (Some q)
    note q = wfCtx_pointer[OF wc Some]
    note wq = wfStore_object[OF wf q]
    show ?thesis
    proof (cases "len (objects st ! q) > 0")
      case True
      then have e: "existing = objects st ! q" using ex Some o2 by simp
      note o = oldSlice_sameBelow[OF wfSlice_oldSlice[OF wq] sb]
      show ?thesis using o Some by (simp add: e carrier_absCtx)
    next
      case False
      then have e: "existing = nilSlice" using ex Some o2 by simp
      have n: "sliceElems st2 nilSlice = []" by (simp add: sliceElems_def nilSlice_def)
      have "sliceElems st (objects st ! q) = []" using False by (simp add: sliceElems_def)
      then show ?thesis using Some n
        by (simp add: e oldSlice_nil carrier_absCtx)
    qed
  qed
  then show "oldSlice (length (arrays st)) st2 existing"
    and "sliceElems st2 existing = carrier (absCtx st c)" by auto
qed

lemma WithUniqueValues_st_props:
  assumes wf: "wfStore st" and wc: "wfContext st ctx0"
    and r: "WithUniqueValues_st slack ctx0 args st = (st', ctx')"
  shows "extends st st' \<and> wfStore st' \<and> wfContext st' ctx'
    \<and> map_option (absCtx st') ctx' = WithUniqueValues (map_option (absCtx st) ctx0) args"
proof -
  let ?N = "length (arrays st)"
  let ?ctx = "orSBackground ctx0"
  let ?n = "pairedLen args"
  note wctx = orSBackground_wf[OF wc]
  note actx = orSBackground_abs[of st ctx0]
  show ?thesis
  proof (cases "?n = 0")
    case True
    then have "st' = st" "ctx' = Some ?ctx" using r by (simp_all add: WithUniqueValues_st_def)
    then show ?thesis
      using wf wctx actx True
      by (simp add: extends_refl wfContext_def WithUniqueValues_eq pairedLen_0_kept)
  next
    case n0: False
    obtain st1 nf0 where mk: "makeSlice (?n div 2) st = (st1, nf0)"
      by (cases "makeSlice (?n div 2) st")
    obtain st2 newFields replaceSet
      where cf: "collectUnique_st slack args ?n 0 nf0 {} st1 = (st2, newFields, replaceSet)"
      by (cases "collectUnique_st slack args ?n 0 nf0 {} st1") auto
    note nf = newFieldsUnique_props[OF mk cf]
    show ?thesis
    proof (cases "keptFields args = []")
      case True
      then have "st' = st2" "ctx' = Some ?ctx"
        using r n0 mk cf nf(4) by (simp_all add: WithUniqueValues_st_def)
      then show ?thesis
        using unchanged_props[OF wf wctx nf(1)] actx True
        by (simp add: wfContext_def WithUniqueValues_eq)
    next
      case kept: False
      then have ln: "len newFields \<noteq> 0" using nf(4) by simp
      let ?N2 = "length (arrays st2)"
      have NN2: "?N \<le> ?N2" using sameBelow_length[OF nf(1)] by simp
      define existing where "existing =
          (case as_pointer (sctxValue ?ctx contextKeyFields) of
             None \<Rightarrow> nilSlice
           | Some q \<Rightarrow> if len (objects st2 ! q) > 0 then objects st2 ! q else nilSlice)"
      note ex = existing_props[OF wf wctx nf(1) existing_def]
      obtain st3 result0 where mk2: "makeSlice (len existing + len newFields) st2 = (st3, result0)"
        by (cases "makeSlice (len existing + len newFields) st2")
      note m2 = makeSlice_props[OF mk2 order_refl]
      note o3 = oldSlice_sameBelow[OF oldSlice_mono[OF NN2 ex(1)] m2(1)]
      have N3: "?N2 \<le> length (arrays st3)" using sameBelow_length[OF m2(1)] by simp
      obtain st4 result where rk: "rangeKeep_st slack replaceSet existing 0 result0 st3 = (st4, result)"
        by (cases "rangeKeep_st slack replaceSet existing 0 result0 st3")
      note k = rangeKeep_st_props[OF o3(1) m2(2) N3,
          where slack = slack and keySet = replaceSet and i = 0]
      have k1: "sameBelow ?N2 st3 st4" and k2: "freshSlice ?N2 st4 result"
        and k3: "sliceElems st4 result
            = filter (\<lambda>f. key f \<notin> replaceSet) (carrier (absCtx st ?ctx))"
        using k m2(5) o3(2) ex(2) by (simp_all add: rk)
      have s24: "sameBelow ?N2 st2 st4" by (rule sameBelow_trans[OF m2(1) k1])
      have N4: "?N2 \<le> length (arrays st4)" using sameBelow_length[OF s24] by simp
      have e4: "sliceElems st4 newFields = keptFields args"
        using sameBelow_elems[OF s24 freshSlice_wf[OF nf(2)]] nf(3) by simp
      obtain st5 combined where ap: "appendSlice slack result (keptFields args) st4 = (st5, combined)"
        by (cases "appendSlice slack result (keptFields args) st4")
      note a = appendSlice_props[OF ap k2 N4]
      obtain st6 p where nd: "newFieldsData combined st5 = (st6, p)"
        by (cases "newFieldsData combined st5")
      have res: "st' = st6 \<and> ctx' = Some (SWithValue ?ctx contextKeyFields (SFieldsData p))"
        using r n0 mk cf ln mk2 rk e4 ap nd
        by (simp add: WithUniqueValues_st_def existing_def[symmetric])
      have s5: "sameBelow ?N st st5"
        by (rule sameBelow_trans[OF nf(1) sameBelow_mono[OF NN2 sameBelow_trans[OF s24 a(1)]]])
      note pb = publish_props[OF wf wctx s5 freshSlice_wf[OF a(2)] nd]
      have elems: "sliceElems st5 combined
          = filter (\<lambda>f. key f \<notin> key ` set (keptFields args)) (carrier (absCtx st ?ctx))
            @ keptFields args"
        using a(3) k3 nf(5) by simp
      show ?thesis
        using pb res actx kept elems
        by (simp add: wfContext_def WithUniqueValues_eq)
    qed
  qed
qed

lemma WithoutKeys_st_props:
  assumes wf: "wfStore st" and wc: "wfContext st ctx0"
    and r: "WithoutKeys_st slack ctx0 keys st = (st', ctx')"
  shows "extends st st' \<and> wfStore st' \<and> wfContext st' ctx'
    \<and> map_option (absCtx st') ctx' = WithoutKeys (map_option (absCtx st) ctx0) keys"
proof (cases ctx0)
  case None
  then have "st' = st" "ctx' = None" using r by (simp_all add: WithoutKeys_st_def)
  then show ?thesis using wf None by (simp add: extends_refl wfContext_def WithoutKeys_def)
next
  case (Some c)
  let ?N = "length (arrays st)"
  have wctx: "wfCtx st c" using wc Some by (simp add: wfContext_def)
  have same: "st' = st \<Longrightarrow> ctx' = Some c \<Longrightarrow> keys = [] \<or> carrier (absCtx st c) = [] \<Longrightarrow> ?thesis"
    using wf wctx Some by (auto simp: extends_refl wfContext_def WithoutKeys_eq)
  show ?thesis
  proof (cases "keys = []")
    case True
    then have "st' = st" "ctx' = Some c" using r Some by (simp_all add: WithoutKeys_st_def)
    then show ?thesis using same True by simp
  next
    case keys: False
    show ?thesis
    proof (cases "as_pointer (sctxValue c contextKeyFields)")
      case None
      then have "st' = st" "ctx' = Some c" using r Some keys by (simp_all add: WithoutKeys_st_def)
      then show ?thesis using same None by (simp add: carrier_absCtx)
    next
      case q: (Some q)
      let ?ex = "objects st ! q"
      note wq = wfStore_object[OF wf wfCtx_pointer[OF wctx q]]
      have car: "carrier (absCtx st c) = sliceElems st ?ex" using q by (simp add: carrier_absCtx)
      show ?thesis
      proof (cases "len ?ex = 0")
        case True
        then have "st' = st" "ctx' = Some c" using r Some keys q by (simp_all add: WithoutKeys_st_def)
        moreover have "carrier (absCtx st c) = []" using True car by (simp add: sliceElems_def)
        ultimately show ?thesis using same by simp
      next
        case len: False
        have carne: "carrier (absCtx st c) \<noteq> []"
          using sliceElems_length[OF wq] len car by auto
        obtain st1 result0 where mk: "makeSlice (len ?ex) st = (st1, result0)"
          by (cases "makeSlice (len ?ex) st")
        note m = makeSlice_props[OF mk order_refl]
        note o1 = oldSlice_sameBelow[OF wfSlice_oldSlice[OF wq] m(1)]
        have N1: "?N \<le> length (arrays st1)" using sameBelow_length[OF m(1)] by simp
        have ks: "makeKeySet keys {} = set keys" by (simp add: makeKeySet_set)
        obtain st2 result
          where rk: "rangeKeep_st slack (set keys) ?ex 0 result0 st1 = (st2, result)"
          by (cases "rangeKeep_st slack (set keys) ?ex 0 result0 st1")
        note k = rangeKeep_st_props[OF o1(1) m(2) N1,
            where slack = slack and keySet = "set keys" and i = 0]
        have k1: "sameBelow ?N st1 st2" and k2: "freshSlice ?N st2 result"
          and k3: "sliceElems st2 result
              = filter (\<lambda>f. key f \<notin> set keys) (carrier (absCtx st c))"
          using k m(5) o1(2) car by (simp_all add: rk)
        have s2: "sameBelow ?N st st2" by (rule sameBelow_trans[OF m(1) k1])
        have lr: "len result = length (filter (\<lambda>f. key f \<notin> set keys) (carrier (absCtx st c)))"
          using sliceElems_length[OF freshSlice_wf[OF k2]] k3 by simp
        show ?thesis
        proof (cases "len result = 0")
          case True
          then have res: "st' = st2" "ctx' = Some (SWithValue c contextKeyFields SNilValue)"
            using r Some keys q len mk rk by (simp_all add: WithoutKeys_st_def ks)
          have f: "filter (\<lambda>f. key f \<notin> set keys) (carrier (absCtx st c)) = []"
            using True lr by simp
          note u = unchanged_props[OF wf wctx s2]
          show ?thesis
            using u res Some keys carne f
            by (simp add: wfContext_def WithoutKeys_eq)
        next
          case False
          obtain st3 p where nd: "newFieldsData result st2 = (st3, p)"
            by (cases "newFieldsData result st2")
          have res: "st' = st3" "ctx' = Some (SWithValue c contextKeyFields (SFieldsData p))"
            using r Some keys q len mk rk False nd by (simp_all add: WithoutKeys_st_def ks)
          have f: "filter (\<lambda>f. key f \<notin> set keys) (carrier (absCtx st c)) \<noteq> []"
            using False lr by auto
          note pb = publish_props[OF wf wctx s2 freshSlice_wf[OF k2] nd]
          show ?thesis
            using pb res Some keys carne f k3
            by (simp add: wfContext_def WithoutKeys_eq)
        qed
      qed
    qed
  qed
qed

lemma WithoutAllKeys_st_props:
  assumes wf: "wfStore st" and wc: "wfContext st ctx0"
    and r: "WithoutAllKeys_st ctx0 st = Inr (st', ctx')"
  shows "extends st st' \<and> wfStore st' \<and> wfContext st' ctx'
    \<and> WithoutAllKeys (map_option (absCtx st) ctx0) = Inr (map_option (absCtx st') ctx')"
  using assms
  by (cases ctx0) (auto simp: WithoutAllKeys_st_def WithoutAllKeys_def extends_refl wfContext_def)

lemma WithoutAllKeys_st_fault:
  "WithoutAllKeys_st ctx0 st = Inl e \<Longrightarrow> WithoutAllKeys (map_option (absCtx st) ctx0) = Inl e"
  by (cases ctx0) (auto simp: WithoutAllKeys_st_def WithoutAllKeys_def)

lemma applyCall_st_props:
  assumes wf: "wfStore st" and wc: "wfContext st ctx0"
    and r: "applyCall_st slack x ctx0 st = Inr (st', ctx')"
  shows "extends st st' \<and> wfStore st' \<and> wfContext st' ctx'
    \<and> applyCall x (map_option (absCtx st) ctx0) = Inr (map_option (absCtx st') ctx')"
proof (cases x)
  case (CallWithValues args)
  then have "WithValues_st slack ctx0 args st = (st', ctx')" using r by simp
  from WithValues_st_props[OF wf wc this] show ?thesis using CallWithValues by simp
next
  case (CallWithUniqueValues args)
  then have "WithUniqueValues_st slack ctx0 args st = (st', ctx')" using r by simp
  from WithUniqueValues_st_props[OF wf wc this] show ?thesis using CallWithUniqueValues by simp
next
  case (CallWithoutKeys keys)
  then have "WithoutKeys_st slack ctx0 keys st = (st', ctx')" using r by simp
  from WithoutKeys_st_props[OF wf wc this] show ?thesis using CallWithoutKeys by simp
next
  case CallWithoutAllKeys
  then have "WithoutAllKeys_st ctx0 st = Inr (st', ctx')" using r by simp
  from WithoutAllKeys_st_props[OF wf wc this] show ?thesis using CallWithoutAllKeys by simp
qed

lemma applyCall_st_fault:
  "applyCall_st slack x ctx0 st = Inl e \<Longrightarrow> applyCall x (map_option (absCtx st) ctx0) = Inl e"
  by (cases x) (auto simp: WithoutAllKeys_st_fault)

lemma applyCalls_st_props:
  "wfStore st \<Longrightarrow> wfContext st ctx0 \<Longrightarrow> applyCalls_st slack xs ctx0 st = Inr (st', ctx') \<Longrightarrow>
   extends st st' \<and> wfStore st' \<and> wfContext st' ctx'
    \<and> applyCalls xs (map_option (absCtx st) ctx0) = Inr (map_option (absCtx st') ctx')"
proof (induction xs arbitrary: st ctx0)
  case Nil
  then show ?case by (simp add: extends_refl)
next
  case (Cons x xs)
  from Cons.prems(3) obtain st1 ctx1
    where a: "applyCall_st slack x ctx0 st = Inr (st1, ctx1)"
      and b: "applyCalls_st slack xs ctx1 st1 = Inr (st', ctx')"
    by (auto split: sum.splits)
  note p = applyCall_st_props[OF Cons.prems(1) Cons.prems(2) a]
  from p have e1: "extends st st1" and w1: "wfStore st1" and c1: "wfContext st1 ctx1"
    and a1: "applyCall x (map_option (absCtx st) ctx0) = Inr (map_option (absCtx st1) ctx1)"
    by simp_all
  note q = Cons.IH[OF w1 c1 b]
  from q have e2: "extends st1 st'" by simp
  show ?case using q a1 extends_trans[OF e1 e2] by simp
qed

lemma applyCalls_st_fault:
  "wfStore st \<Longrightarrow> wfContext st ctx0 \<Longrightarrow> applyCalls_st slack xs ctx0 st = Inl e \<Longrightarrow>
   applyCalls xs (map_option (absCtx st) ctx0) = Inl e"
proof (induction xs arbitrary: st ctx0)
  case Nil
  then show ?case by simp
next
  case (Cons x xs)
  show ?case
  proof (cases "applyCall_st slack x ctx0 st")
    case (Inl e')
    then have "e' = e" using Cons.prems(3) by simp
    then show ?thesis using applyCall_st_fault[OF Inl] by simp
  next
    case (Inr pr)
    obtain st1 ctx1 where pr: "pr = (st1, ctx1)" by (cases pr)
    note a = Inr[unfolded pr]
    have b: "applyCalls_st slack xs ctx1 st1 = Inl e" using Cons.prems(3) a by simp
    note p = applyCall_st_props[OF Cons.prems(1) Cons.prems(2) a]
    from p have w1: "wfStore st1" and c1: "wfContext st1 ctx1"
      and a1: "applyCall x (map_option (absCtx st) ctx0) = Inr (map_option (absCtx st1) ctx1)"
      by simp_all
    show ?thesis using Cons.IH[OF w1 c1 b] a1 by simp
  qed
qed

text \<open>The readers on the store read what the context stands for.\<close>

lemma GetFirstValue_st_abs:
  "GetFirstValue_st st ctx k = GetFirstValue (map_option (absCtx st) ctx) k"
  by (cases ctx)
     (auto simp: GetFirstValue_st_def GetFirstValue_def absCtx_value as_fieldsData_absVal
           split: option.splits)

lemma HasKey_st_abs:
  "HasKey_st st ctx k = HasKey (map_option (absCtx st) ctx) k"
  by (cases ctx)
     (auto simp: HasKey_st_def HasKey_def absCtx_value as_fieldsData_absVal
           split: option.splits)

lemma emitted_st_abs:
  "emitted_st slack st (Some c) record = Inr (addFields slack record (carrier (absCtx st c)))"
  by (auto simp: emitted_st_def carrier_absCtx split: option.splits)

lemma Handle_emitted_st:
  "Handle slack (Handler (Some s)) (map_option (absCtx st) ctx) record w =
     (case emitted_st slack st ctx record of
        Inl e \<Rightarrow> Inl e
      | Inr record' \<Rightarrow> Inr (sinkHandle s (map_option (absCtx st) ctx) record' w))"
  by (cases ctx)
     (auto simp: emitted_st_def absCtx_value as_fieldsData_absVal split: option.splits)

lemma readers_extends:
  assumes e: "extends st st'" and wf: "wfStore st" and wc: "wfContext st parent"
  shows "map_option (absCtx st') parent = map_option (absCtx st) parent"
    and "GetFirstValue_st st' parent k = GetFirstValue_st st parent k"
    and "HasKey_st st' parent k = HasKey_st st parent k"
    and "emitted_st slack st' parent record = emitted_st slack st parent record"
proof -
  show a: "map_option (absCtx st') parent = map_option (absCtx st) parent"
    using wc absCtx_extends[OF e wf] by (cases parent) (simp_all add: wfContext_def)
  show "GetFirstValue_st st' parent k = GetFirstValue_st st parent k"
    by (simp only: GetFirstValue_st_abs a)
  show "HasKey_st st' parent k = HasKey_st st parent k"
    by (simp only: HasKey_st_abs a)
  show "emitted_st slack st' parent record = emitted_st slack st parent record"
  proof (cases parent)
    case None
    then show ?thesis by (simp add: emitted_st_def)
  next
    case (Some c)
    then have "absCtx st' c = absCtx st c" using a by simp
    then show ?thesis using Some by (simp add: emitted_st_abs)
  qed
qed

lemma applyCalls_st_nil_fault:
  assumes wf: "wfStore st" and wc: "wfContext st ctx"
    and r: "applyCalls_st slack calls ctx st = Inl e"
  shows "ctx = None"
proof (cases ctx)
  case None
  then show ?thesis .
next
  case (Some c)
  have "applyCalls calls (Some (absCtx st c)) = Inl e"
    using applyCalls_st_fault[OF wf wc r] Some by simp
  then show ?thesis using applyCalls_Some[of calls "absCtx st c"] by simp
qed

text \<open>
  C7. No mutator changes what a context already stands for. Let a store be well formed,
  and let \<open>parent\<close> and \<open>ctx\<close> be contexts of it (the same one, one derived from the other,
  or unrelated). Any chain of \<open>WithValues\<close>, \<open>WithUniqueValues\<close>, \<open>WithoutKeys\<close> and
  \<open>WithoutAllKeys\<close> calls starting at \<open>ctx\<close>, whatever capacities the runtime chooses
  when \<open>append\<close> reallocates, returns unless \<open>ctx\<close> is nil, and leaves every array that
  existed before, in all its cells, and every \<open>fieldsData\<close> struct as it was: the chain
  writes only to storage it allocated itself. So \<open>parent\<close> stands for the same context
  after the chain as before, and \<open>GetFirstValue\<close>, \<open>HasKey\<close> and the record \<open>Handle\<close>
  passes on give for \<open>parent\<close>, in the store after the chain, what they gave before.
\<close>

theorem mutators_preserve_parent:
  assumes "wfStore st" and "wfContext st parent" and "wfContext st ctx"
  shows "case applyCalls_st slack calls ctx st of
           Inl e \<Rightarrow> ctx = None
         | Inr (st', ctx') \<Rightarrow>
             extends st st'
             \<and> map_option (absCtx st') parent = map_option (absCtx st) parent
             \<and> GetFirstValue_st st' parent k = GetFirstValue_st st parent k
             \<and> HasKey_st st' parent k = HasKey_st st parent k
             \<and> emitted_st slack' st' parent r = emitted_st slack' st parent r"
proof (cases "applyCalls_st slack calls ctx st")
  case (Inl e)
  then show ?thesis using applyCalls_st_nil_fault[OF assms(1) assms(3) Inl] by simp
next
  case (Inr pr)
  obtain st' ctx' where pr: "pr = (st', ctx')" by (cases pr)
  note r = Inr[unfolded pr]
  from applyCalls_st_props[OF assms(1) assms(3) r] have e: "extends st st'" by simp
  show ?thesis using e readers_extends[OF e assms(1) assms(2)] by (simp add: r)
qed



theorem mutators_preserve_parent_witness:
  "wfStore \<lparr>arrays = [[\<lparr>key = ''a'', val = AnyInt 1\<rparr>, zeroField]],
            objects = [\<lparr>base = 0, len = 1, cap = 2\<rparr>]\<rparr>
   \<and> wfContext \<lparr>arrays = [[\<lparr>key = ''a'', val = AnyInt 1\<rparr>, zeroField]],
                 objects = [\<lparr>base = 0, len = 1, cap = 2\<rparr>]\<rparr>
         (Some (SWithValue SBackground contextKeyFields (SFieldsData 0)))
   \<and> applyCalls_st (\<lambda>n. n) [CallWithValues [AnyString ''b'', AnyInt 2]]
         (Some (SWithValue SBackground contextKeyFields (SFieldsData 0)))
         \<lparr>arrays = [[\<lparr>key = ''a'', val = AnyInt 1\<rparr>, zeroField]],
          objects = [\<lparr>base = 0, len = 1, cap = 2\<rparr>]\<rparr>
       = Inr (\<lparr>arrays = [[\<lparr>key = ''a'', val = AnyInt 1\<rparr>, zeroField],
                          [\<lparr>key = ''b'', val = AnyInt 2\<rparr>],
                          [\<lparr>key = ''a'', val = AnyInt 1\<rparr>, \<lparr>key = ''b'', val = AnyInt 2\<rparr>]],
               objects = [\<lparr>base = 0, len = 1, cap = 2\<rparr>, \<lparr>base = 2, len = 2, cap = 2\<rparr>]\<rparr>,
              Some (SWithValue (SWithValue SBackground contextKeyFields (SFieldsData 0))
                      contextKeyFields (SFieldsData 1)))
   \<and> extends \<lparr>arrays = [[\<lparr>key = ''a'', val = AnyInt 1\<rparr>, zeroField]],
               objects = [\<lparr>base = 0, len = 1, cap = 2\<rparr>]\<rparr>
         \<lparr>arrays = [[\<lparr>key = ''a'', val = AnyInt 1\<rparr>, zeroField],
                    [\<lparr>key = ''b'', val = AnyInt 2\<rparr>],
                    [\<lparr>key = ''a'', val = AnyInt 1\<rparr>, \<lparr>key = ''b'', val = AnyInt 2\<rparr>]],
          objects = [\<lparr>base = 0, len = 1, cap = 2\<rparr>, \<lparr>base = 2, len = 2, cap = 2\<rparr>]\<rparr>
   \<and> GetFirstValue_st
         \<lparr>arrays = [[\<lparr>key = ''a'', val = AnyInt 1\<rparr>, zeroField],
                    [\<lparr>key = ''b'', val = AnyInt 2\<rparr>],
                    [\<lparr>key = ''a'', val = AnyInt 1\<rparr>, \<lparr>key = ''b'', val = AnyInt 2\<rparr>]],
          objects = [\<lparr>base = 0, len = 1, cap = 2\<rparr>, \<lparr>base = 2, len = 2, cap = 2\<rparr>]\<rparr>
         (Some (SWithValue SBackground contextKeyFields (SFieldsData 0))) ''b''
       = Inr (AnyNil, False)
   \<and> HasKey_st
         \<lparr>arrays = [[\<lparr>key = ''a'', val = AnyInt 1\<rparr>, zeroField],
                    [\<lparr>key = ''b'', val = AnyInt 2\<rparr>],
                    [\<lparr>key = ''a'', val = AnyInt 1\<rparr>, \<lparr>key = ''b'', val = AnyInt 2\<rparr>]],
          objects = [\<lparr>base = 0, len = 1, cap = 2\<rparr>, \<lparr>base = 2, len = 2, cap = 2\<rparr>]\<rparr>
         (Some (SWithValue SBackground contextKeyFields (SFieldsData 0))) ''b''
       = Inr False
   \<and> emitted_st (\<lambda>n. 0)
         \<lparr>arrays = [[\<lparr>key = ''a'', val = AnyInt 1\<rparr>, zeroField],
                    [\<lparr>key = ''b'', val = AnyInt 2\<rparr>],
                    [\<lparr>key = ''a'', val = AnyInt 1\<rparr>, \<lparr>key = ''b'', val = AnyInt 2\<rparr>]],
          objects = [\<lparr>base = 0, len = 1, cap = 2\<rparr>, \<lparr>base = 2, len = 2, cap = 2\<rparr>]\<rparr>
         (Some (SWithValue SBackground contextKeyFields (SFieldsData 0)))
         (NewRecord 0 ''msg'')
       = Inr \<lparr>rLevel = 0, rMessage = ''msg'', rFront = [Attr ''a'' (KindInt64 1)],
               rBack = [], rSpare = []\<rparr>"
proof -
  let ?st0 = "\<lparr>arrays = [[\<lparr>key = ''a'', val = AnyInt 1\<rparr>, zeroField]],
               objects = [\<lparr>base = 0, len = 1, cap = 2\<rparr>]\<rparr>"
  let ?st1 = "\<lparr>arrays = [[\<lparr>key = ''a'', val = AnyInt 1\<rparr>, zeroField],
                          [\<lparr>key = ''b'', val = AnyInt 2\<rparr>],
                          [\<lparr>key = ''a'', val = AnyInt 1\<rparr>, \<lparr>key = ''b'', val = AnyInt 2\<rparr>]],
               objects = [\<lparr>base = 0, len = 1, cap = 2\<rparr>, \<lparr>base = 2, len = 2, cap = 2\<rparr>]\<rparr>"
  let ?p0 = "Some (SWithValue SBackground contextKeyFields (SFieldsData 0))"
  let ?c1 = "Some (SWithValue (SWithValue SBackground contextKeyFields (SFieldsData 0))
                      contextKeyFields (SFieldsData 1))"
  let ?r = "(NewRecord 0 ''msg'')"
  have h1: "wfStore ?st0" by (simp add: wfStore_def wfSlice_def)
  have h2: "wfContext ?st0 ?p0" by (simp add: wfContext_def)
  have h3: "applyCalls_st (\<lambda>n. n) [CallWithValues [AnyString ''b'', AnyInt 2]] ?p0 ?st0
              = Inr (?st1, ?c1)"
    by code_simp
  have g: "GetFirstValue_st ?st0 ?p0 ''b'' = Inr (AnyNil, False)" by code_simp
  have h: "HasKey_st ?st0 ?p0 ''b'' = Inr False" by code_simp
  have e: "emitted_st (\<lambda>n. 0) ?st0 ?p0 ?r = Inr \<lparr>rLevel = 0, rMessage = ''msg'', rFront = [Attr ''a'' (KindInt64 1)],
               rBack = [], rSpare = []\<rparr>"
    by code_simp
  from mutators_preserve_parent[OF h1 h2 h2,
      where slack = "\<lambda>n. n" and calls = "[CallWithValues [AnyString ''b'', AnyInt 2]]"
        and k = "''b''" and r = ?r and slack' = "\<lambda>n. 0"]
  have c: "extends ?st0 ?st1
      \<and> GetFirstValue_st ?st1 ?p0 ''b'' = GetFirstValue_st ?st0 ?p0 ''b''
      \<and> HasKey_st ?st1 ?p0 ''b'' = HasKey_st ?st0 ?p0 ''b''
      \<and> emitted_st (\<lambda>n. 0) ?st1 ?p0 ?r = emitted_st (\<lambda>n. 0) ?st0 ?p0 ?r"
    by (simp only: h3 sum.case prod.case)
  from c have c1: "extends ?st0 ?st1" by (elim conjE)
  from c g have c2: "GetFirstValue_st ?st1 ?p0 ''b'' = Inr (AnyNil, False)" by (elim conjE) (rule trans)
  from c h have c3: "HasKey_st ?st1 ?p0 ''b'' = Inr False" by (elim conjE) (rule trans)
  from c e have c4: "emitted_st (\<lambda>n. 0) ?st1 ?p0 ?r
      = Inr \<lparr>rLevel = 0, rMessage = ''msg'', rFront = [Attr ''a'' (KindInt64 1)],
               rBack = [], rSpare = []\<rparr>"
    by (elim conjE) (rule trans)
  show ?thesis by (intro conjI h1 h2 h3 c1 c2 c3 c4)
qed

end
